theory Spec2Isabelle
  imports Main "HOL-Library.Word"
begin

section \<open>Data model of shutdown.go\<close>

text \<open>
  \<^verbatim>\<open>time.Duration\<close> is a signed 64-bit count of nanoseconds. The program only ever
  builds the three constants \<open>30 * time.Second\<close>, \<open>10 * time.Second\<close> and
  \<open>3 * time.Second\<close>, all far below \<open>2 ^ 63\<close>, and never adds or multiplies durations
  afterwards, so durations are integers here.
\<close>

type_synonym Duration = int

definition Second :: Duration where
  "Second = 1000000000"

text \<open>
  The two ways the program builds a \<^verbatim>\<open>context.Context\<close>: \<open>context.Background()\<close>
  (lines 141 and 211) and \<open>context.WithTimeout(bg, app.cbTimeout)\<close> (line 145).
\<close>

datatype Context = Background | WithTimeout Context Duration

text \<open>Only a context with a deadline can ever become done.\<close>

fun ctx_may_expire :: "Context \<Rightarrow> bool" where
  "ctx_may_expire Background = False"
| "ctx_may_expire (WithTimeout _ _) = True"

subsection \<open>HTTP requests and responses\<close>

type_synonym byte = "8 word"

datatype Request = Request (req_method: string) (req_path: string)

text \<open>
  What a handler can observe of an \<^verbatim>\<open>http.ResponseWriter\<close>: the status line, once it
  is written, and the body bytes written so far. \<open>WriteHeader\<close> after the header has
  been written is ignored by net/http; \<open>Write\<close> before any \<open>WriteHeader\<close> sends
  status 200 first.
\<close>

record ResponseWriter =
  status :: "nat option"
  body :: "byte list"

definition newResponse :: ResponseWriter where
  "newResponse = \<lparr>status = None, body = []\<rparr>"

definition WriteHeader :: "nat \<Rightarrow> ResponseWriter \<Rightarrow> ResponseWriter" where
  "WriteHeader code w = (case status w of None \<Rightarrow> w\<lparr>status := Some code\<rparr> | Some _ \<Rightarrow> w)"

definition Write :: "byte list \<Rightarrow> ResponseWriter \<Rightarrow> ResponseWriter" where
  "Write bs w = (let w' = WriteHeader 200 w in w'\<lparr>body := body w' @ bs\<rparr>)"

definition StatusServiceUnavailable :: nat where
  "StatusServiceUnavailable = 503"

text \<open>The UTF-8 bytes of the string literal of line 179 (five Chinese characters).\<close>

definition unavailable_body :: "byte list" where
  "unavailable_body =
     [0xE6, 0x9C, 0x8D, 0xE5, 0x8A, 0xA1, 0xE5, 0xB7, 0xB2, 0xE5, 0x85, 0xB3, 0xE9, 0x97, 0xAD]"

type_synonym Handler = "ResponseWriter \<Rightarrow> Request \<Rightarrow> ResponseWriter"

subsection \<open>Servers\<close>

text \<open>
  \<open>serverMux\<close> (lines 171-174): the reject flag and the embedded \<^verbatim>\<open>*http.ServeMux\<close>,
  kept as the handler function it is.
\<close>

record serverMux =
  reject :: bool
  ServeMux :: Handler

text \<open>
  What the shutdown sequence depends on in an \<^verbatim>\<open>*http.Server\<close>: whether
  \<open>Shutdown\<close> has closed its listeners, and how many requests its handler is serving.
\<close>

record httpServer =
  Addr :: string
  inShutdown :: bool
  inflight :: nat

record Server =
  srv :: httpServer
  name :: string
  mux :: serverMux

text \<open>
  \<open>NewServer\<close>, lines 185-195. The mux is created by \<^verbatim>\<open>http.NewServeMux()\<close> and the
  caller fills it through \<open>Server.Handle\<close> (lines 197-199) before the server starts. How
  it routes a request, and what it answers, is net/http's and the caller's business and
  no part of this program; the handler the mux amounts to is the parameter \<open>h\<close>.
\<close>

definition NewServer :: "Handler \<Rightarrow> string \<Rightarrow> string \<Rightarrow> Server" where
  "NewServer h nm addr =
     \<lparr>srv = \<lparr>Addr = addr, inShutdown = False, inflight = 0\<rparr>,
      name = nm,
      mux = \<lparr>reject = False, ServeMux = h\<rparr>\<rparr>"

text \<open>\<open>serverMux.ServeHTTP\<close>, lines 176-183.\<close>

definition ServeHTTP :: "serverMux \<Rightarrow> ResponseWriter \<Rightarrow> Request \<Rightarrow> ResponseWriter" where
  "ServeHTTP s w r =
     (if reject s then Write unavailable_body (WriteHeader StatusServiceUnavailable w)
      else ServeMux s w r)"

text \<open>\<open>Server.rejectReq\<close>, lines 205-207.\<close>

definition rejectReq :: "Server \<Rightarrow> Server" where
  "rejectReq s = s\<lparr>mux := (mux s)\<lparr>reject := True\<rparr>\<rparr>"

subsection \<open>The application and its options\<close>

text \<open>
  \<open>App\<close> (lines 32-44). A \<open>ShutdownCallback\<close> is an opaque function of the caller; the
  program only stores and calls it, so its type is a parameter.
\<close>

record 'cb App =
  servers :: "Server list"
  shutdownTimeout :: Duration
  waitTime :: Duration
  cbTimeout :: Duration
  cbs :: "'cb list"

type_synonym 'cb Option = "'cb App \<Rightarrow> 'cb App"

text \<open>\<open>WithShutdownCallbacks\<close>, lines 24-29: the closure assigns \<open>app.cbs\<close>.\<close>

definition WithShutdownCallbacks :: "'cb list \<Rightarrow> 'cb Option" where
  "WithShutdownCallbacks cs = (\<lambda>a. a\<lparr>cbs := cs\<rparr>)"

text \<open>\<open>NewApp\<close>, lines 47-60: the defaults, then every option in turn.\<close>

definition NewApp :: "Server list \<Rightarrow> 'cb Option list \<Rightarrow> 'cb App" where
  "NewApp svs opts =
     foldl (\<lambda>a opt. opt a)
       \<lparr>servers = svs,
        shutdownTimeout = 30 * Second,
        waitTime = 10 * Second,
        cbTimeout = 3 * Second,
        cbs = []\<rparr>
       opts"

section \<open>The shutdown sequence as a transition system\<close>

text \<open>
  \<open>StartAndServe\<close> (lines 63-112) and \<open>shutdown\<close> (lines 115-156) run several
  goroutines: the controlling goroutine, one goroutine per server for \<open>stop\<close>, one per
  callback, the goroutine that waits for a second signal (lines 96-103), the timer of
  \<open>time.AfterFunc\<close> (lines 105-108), and the listeners that dispatch requests to
  \<open>ServeHTTP\<close>. The model is an interleaving of their steps: a step function gives the
  effect of one action of one goroutine on the shared state, or \<open>None\<close> when that
  goroutine cannot move (it is blocked, finished, or the process has exited). The
  scheduler and the environment (signals, requests, the outcome of each callback and of
  each \<open>http.Server.Shutdown\<close>) are the list of actions a run is given.

  The goroutines of lines 64-76 that run \<open>srv.Start()\<close> appear as these listeners only;
  the servers are taken as started, and the two log lines of a \<open>Start\<close> that returns are
  left out. The interleaving is sequentially consistent: a step sees every earlier write.
  There is no clock: \<open>time.Sleep\<close> is a step that begins the sleep and a step that ends
  it, and the timer of line 105 may expire at any moment after it is armed. The
  registry \<open>[]*Server\<close> is kept as the list of the servers themselves, so two entries
  are two servers.
\<close>

text \<open>Where the controlling goroutine stands; the number is a loop index.\<close>

datatype point =
    AwaitSignal             \<comment> \<open>line 94: blocked in \<open>select\<close> on \<open>signalChan\<close>\<close>
  | Rejecting nat           \<comment> \<open>lines 118-122, before iteration \<open>i\<close>\<close>
  | Draining                \<comment> \<open>line 125: inside \<open>time.Sleep(app.waitTime)\<close>\<close>
  | StoppingServers nat     \<comment> \<open>lines 130-136, before iteration \<open>i\<close>\<close>
  | WaitStopped             \<comment> \<open>line 137: \<open>wg.Wait()\<close>\<close>
  | RunningCallbacks nat    \<comment> \<open>lines 142-150, before iteration \<open>j\<close>\<close>
  | WaitCallbacks           \<comment> \<open>line 151: \<open>wg.Wait()\<close>\<close>
  | Releasing               \<comment> \<open>line 155: inside \<open>app.close()\<close>\<close>
  | Returned                \<comment> \<open>\<open>shutdown\<close> and \<open>StartAndServe\<close> have returned\<close>

text \<open>The life of a goroutine started by a \<open>go\<close> statement of \<open>shutdown\<close>.\<close>

datatype gstatus = Unspawned | Spawned | Running | Finished

text \<open>
  The errors \<open>http.Server.Shutdown\<close> can return: the error of closing a listener, or
  the error of its context when that is done first.
\<close>

datatype error = ListenerCloseError | DeadlineExceeded

datatype action =
    Signal                        \<comment> \<open>a value is received from \<open>signalChan\<close>\<close>
  | TimerFire                     \<comment> \<open>the timer of line 105 expires\<close>
  | Main                          \<comment> \<open>the controlling goroutine runs its next statement\<close>
  | StopBegin nat                 \<comment> \<open>the goroutine of lines 132-135 calls \<open>srv.stop()\<close>\<close>
  | StopReturn nat "error option" \<comment> \<open>\<open>Shutdown\<close> returns; the deferred \<open>wg.Done()\<close> runs\<close>
  | CbBegin nat                   \<comment> \<open>the goroutine of lines 146-149 calls \<open>cb(timeoutCtx)\<close>\<close>
  | CbReturn nat                  \<comment> \<open>the callback returns; \<open>wg.Done()\<close> runs\<close>
  | CbPanic nat                   \<comment> \<open>the callback panics\<close>
  | ReqArrive nat Request         \<comment> \<open>a listener dispatches a request to \<open>ServeHTTP\<close>\<close>
  | ReqDone nat                   \<comment> \<open>a request's handler has returned and its connection is idle\<close>

text \<open>What has happened, in order.\<close>

datatype event =
    Triggered
  | Rejected nat
  | SleepBegin Duration
  | SleepEnd
  | GoStop nat
  | StopCalled nat
  | StopReturned nat "error option"
  | StopsJoined
  | GoCallback nat
  | CbCalled nat Context
  | CbReturned nat
  | CbPanicked nat
  | CloseBegin
  | CloseEnd
  | Exited nat
  | Served nat Request ResponseWriter
  | Completed nat

text \<open>The lines the program prints with \<open>log\<close>, named by their source line.\<close>

datatype logline =
    LogShutdownBegin          \<comment> \<open>line 116\<close>
  | LogServerRejected string  \<comment> \<open>line 121, with \<open>srv.name\<close>\<close>
  | LogWaitRequests           \<comment> \<open>line 123\<close>
  | LogStoppingServers        \<comment> \<open>line 127\<close>
  | LogServerStopping string  \<comment> \<open>line 210, with \<open>s.name\<close>\<close>
  | LogRunCallbacks           \<comment> \<open>line 139\<close>
  | LogRelease                \<comment> \<open>line 154\<close>
  | LogAppClosed              \<comment> \<open>line 161\<close>
  | LogSecondSignal           \<comment> \<open>line 100\<close>
  | LogDeadline               \<comment> \<open>line 106\<close>

record 'cb state =
  app :: "'cb App"
  pc :: point
  wg :: int                  \<comment> \<open>the counter of the \<open>sync.WaitGroup\<close> of line 129\<close>
  stops :: "gstatus list"    \<comment> \<open>the stop goroutine of each server\<close>
  cbst :: "gstatus list"     \<comment> \<open>the goroutine of each callback\<close>
  exited :: "nat option"     \<comment> \<open>the exit status, once the process has exited\<close>
  trace :: "event list"
  logs :: "logline list"

definition init :: "'cb App \<Rightarrow> 'cb state" where
  "init a =
     \<lparr>app = a, pc = AwaitSignal, wg = 0,
      stops = replicate (length (servers a)) Unspawned,
      cbst = replicate (length (cbs a)) Unspawned,
      exited = None, trace = [], logs = []\<rparr>"

definition upd_server :: "nat \<Rightarrow> (Server \<Rightarrow> Server) \<Rightarrow> 'cb App \<Rightarrow> 'cb App" where
  "upd_server i f a = a\<lparr>servers := (servers a)[i := f (servers a ! i)]\<rparr>"

definition emit :: "event \<Rightarrow> 'cb state \<Rightarrow> 'cb state" where
  "emit e st = st\<lparr>trace := trace st @ [e]\<rparr>"

definition logp :: "logline \<Rightarrow> 'cb state \<Rightarrow> 'cb state" where
  "logp l st = st\<lparr>logs := logs st @ [l]\<rparr>"

text \<open>
  \<open>os.Exit(code)\<close>. An unrecovered panic in any goroutine ends a Go process with
  status 2.
\<close>

definition os_Exit :: "nat \<Rightarrow> 'cb state \<Rightarrow> 'cb state" where
  "os_Exit code st = emit (Exited code) (st\<lparr>exited := Some code\<rparr>)"

definition go_panic :: "'cb state \<Rightarrow> 'cb state" where
  "go_panic st = os_Exit 2 st"

text \<open>\<open>wg.Add(1)\<close> and \<open>wg.Done()\<close>; a counter that would go negative panics.\<close>

definition wg_Add1 :: "'cb state \<Rightarrow> 'cb state" where
  "wg_Add1 st = st\<lparr>wg := wg st + 1\<rparr>"

definition wg_Done :: "'cb state \<Rightarrow> 'cb state" where
  "wg_Done st = (if wg st - 1 < 0 then go_panic st else st\<lparr>wg := wg st - 1\<rparr>)"

text \<open>
  When \<open>http.Server.Shutdown(ctx)\<close> can return \<open>res\<close>: it closes the listeners first,
  then polls until no connection is active and returns the listeners' error (or nil);
  it returns the context's error as soon as the context is done.
\<close>

definition Shutdown_returns :: "Context \<Rightarrow> httpServer \<Rightarrow> error option \<Rightarrow> bool" where
  "Shutdown_returns ctx hs res =
     (if res = Some DeadlineExceeded then ctx_may_expire ctx \<and> 0 < inflight hs
      else inflight hs = 0)"

text \<open>One statement of the controlling goroutine inside \<open>shutdown\<close>.\<close>

definition main_step :: "'cb state \<Rightarrow> 'cb state option" where
  "main_step st =
     (case pc st of
        AwaitSignal \<Rightarrow> None
      | Rejecting i \<Rightarrow>
          if i < length (servers (app st))
          then Some (logp (LogServerRejected (name (servers (app st) ! i)))
                 (emit (Rejected i)
                   (st\<lparr>app := upd_server i rejectReq (app st), pc := Rejecting (Suc i)\<rparr>)))
          else Some (emit (SleepBegin (waitTime (app st)))
                 (logp LogWaitRequests (st\<lparr>pc := Draining\<rparr>)))
      | Draining \<Rightarrow>
          Some (logp LogStoppingServers (emit SleepEnd (st\<lparr>pc := StoppingServers 0\<rparr>)))
      | StoppingServers i \<Rightarrow>
          if i < length (servers (app st))
          then Some (emit (GoStop i)
                 (wg_Add1 (st\<lparr>stops := (stops st)[i := Spawned],
                               pc := StoppingServers (Suc i)\<rparr>)))
          else Some (st\<lparr>pc := WaitStopped\<rparr>)
      | WaitStopped \<Rightarrow>
          if wg st = 0
          then Some (logp LogRunCallbacks (emit StopsJoined (st\<lparr>pc := RunningCallbacks 0\<rparr>)))
          else None
      | RunningCallbacks j \<Rightarrow>
          if j < length (cbs (app st))
          then Some (emit (GoCallback j)
                 (wg_Add1 (st\<lparr>cbst := (cbst st)[j := Spawned],
                               pc := RunningCallbacks (Suc j)\<rparr>)))
          else Some (st\<lparr>pc := WaitCallbacks\<rparr>)
      | WaitCallbacks \<Rightarrow>
          if wg st = 0
          then Some (emit CloseBegin (logp LogRelease (st\<lparr>pc := Releasing\<rparr>)))
          else None
      | Releasing \<Rightarrow>
          Some (emit CloseEnd (logp LogAppClosed (st\<lparr>pc := Returned\<rparr>)))
      | Returned \<Rightarrow> None)"

text \<open>
  One action. The first signal (line 95) starts the second-signal goroutine, arms the
  timer and enters \<open>shutdown\<close>, whose first statement is the log of line 116; from then
  on a signal is received by the goroutine of lines 96-103.
\<close>

definition step :: "action \<Rightarrow> 'cb state \<Rightarrow> 'cb state option" where
  "step a st =
     (if exited st \<noteq> None then None
      else case a of
        Signal \<Rightarrow>
          if pc st = AwaitSignal
          then Some (logp LogShutdownBegin (emit Triggered (st\<lparr>pc := Rejecting 0\<rparr>)))
          else Some (os_Exit 1 (logp LogSecondSignal st))
      | TimerFire \<Rightarrow>
          if pc st = AwaitSignal then None
          else Some (os_Exit 1 (logp LogDeadline st))
      | Main \<Rightarrow> main_step st
      | StopBegin i \<Rightarrow>
          if i < length (stops st) \<and> i < length (servers (app st)) \<and> stops st ! i = Spawned
          then Some (emit (StopCalled i)
                 (logp (LogServerStopping (name (servers (app st) ! i)))
                   (st\<lparr>stops := (stops st)[i := Running],
                       app := upd_server i (\<lambda>s. s\<lparr>srv := (srv s)\<lparr>inShutdown := True\<rparr>\<rparr>)
                                (app st)\<rparr>)))
          else None
      | StopReturn i res \<Rightarrow>
          if i < length (stops st) \<and> i < length (servers (app st)) \<and> stops st ! i = Running
             \<and> Shutdown_returns Background (srv (servers (app st) ! i)) res
          then Some (wg_Done (emit (StopReturned i res)
                 (st\<lparr>stops := (stops st)[i := Finished]\<rparr>)))
          else None
      | CbBegin j \<Rightarrow>
          if j < length (cbst st) \<and> cbst st ! j = Spawned
          then Some (emit (CbCalled j (WithTimeout Background (cbTimeout (app st))))
                 (st\<lparr>cbst := (cbst st)[j := Running]\<rparr>))
          else None
      | CbReturn j \<Rightarrow>
          if j < length (cbst st) \<and> cbst st ! j = Running
          then Some (wg_Done (emit (CbReturned j) (st\<lparr>cbst := (cbst st)[j := Finished]\<rparr>)))
          else None
      | CbPanic j \<Rightarrow>
          if j < length (cbst st) \<and> cbst st ! j = Running
          then Some (go_panic (emit (CbPanicked j) st))
          else None
      | ReqArrive i r \<Rightarrow>
          if i < length (servers (app st)) \<and> \<not> inShutdown (srv (servers (app st) ! i))
          then Some (emit (Served i r (ServeHTTP (mux (servers (app st) ! i)) newResponse r))
                 (st\<lparr>app := upd_server i
                        (\<lambda>s. s\<lparr>srv := (srv s)\<lparr>inflight := Suc (inflight (srv s))\<rparr>\<rparr>)
                        (app st)\<rparr>))
          else None
      | ReqDone i \<Rightarrow>
          if i < length (servers (app st)) \<and> 0 < inflight (srv (servers (app st) ! i))
          then Some (emit (Completed i)
                 (st\<lparr>app := upd_server i
                        (\<lambda>s. s\<lparr>srv := (srv s)\<lparr>inflight := inflight (srv s) - 1\<rparr>\<rparr>)
                        (app st)\<rparr>))
          else None)"

text \<open>A run: the actions in order, \<open>None\<close> as soon as one of them cannot happen.\<close>

fun run :: "action list \<Rightarrow> 'cb state \<Rightarrow> 'cb state option" where
  "run [] st = Some st"
| "run (a # as) st = (case step a st of None \<Rightarrow> None | Some st' \<Rightarrow> run as st')"

section \<open>Invariants of the transition system\<close>

text \<open>The stage the controlling goroutine is in, as a number that only grows.\<close>

fun rank :: "point \<Rightarrow> nat" where
  "rank AwaitSignal = 0"
| "rank (Rejecting _) = 1"
| "rank Draining = 2"
| "rank (StoppingServers _) = 3"
| "rank WaitStopped = 4"
| "rank (RunningCallbacks _) = 5"
| "rank WaitCallbacks = 6"
| "rank Releasing = 7"
| "rank Returned = 8"

text \<open>
  How many servers the loop of lines 118-122 has handled, how many \<open>stop\<close> goroutines
  the loop of lines 130-136 has started, and how many callback goroutines the loop of
  lines 142-150 has started, at a given point (\<open>n\<close> servers, \<open>m\<close> callbacks).
\<close>

fun nrej :: "nat \<Rightarrow> point \<Rightarrow> nat" where
  "nrej n AwaitSignal = 0"
| "nrej n (Rejecting i) = i"
| "nrej n _ = n"

fun nstop :: "nat \<Rightarrow> point \<Rightarrow> nat" where
  "nstop n AwaitSignal = 0"
| "nstop n (Rejecting _) = 0"
| "nstop n Draining = 0"
| "nstop n (StoppingServers i) = i"
| "nstop n _ = n"

fun ncb :: "nat \<Rightarrow> point \<Rightarrow> nat" where
  "ncb m (RunningCallbacks j) = j"
| "ncb m WaitCallbacks = m"
| "ncb m Releasing = m"
| "ncb m Returned = m"
| "ncb m _ = 0"

text \<open>A goroutine that was started and has not called \<open>wg.Done()\<close> yet.\<close>

fun active :: "gstatus \<Rightarrow> bool" where
  "active Spawned = True"
| "active Running = True"
| "active _ = False"

text \<open>
  The configuration never changes, the bookkeeping lists keep their lengths, and the
  loop indices stay in range.
\<close>

definition shape :: "'cb App \<Rightarrow> 'cb state \<Rightarrow> bool" where
  "shape a st =
     (length (servers (app st)) = length (servers a) \<and>
      waitTime (app st) = waitTime a \<and> cbTimeout (app st) = cbTimeout a \<and>
      shutdownTimeout (app st) = shutdownTimeout a \<and>
      cbs (app st) = cbs a \<and>
      length (stops st) = length (servers a) \<and>
      length (cbst st) = length (cbs a) \<and>
      nrej (length (servers a)) (pc st) \<le> length (servers a) \<and>
      nstop (length (servers a)) (pc st) \<le> length (servers a) \<and>
      ncb (length (cbs a)) (pc st) \<le> length (cbs a))"

text \<open>
  The \<open>WaitGroup\<close> counter is the number of active goroutines; a goroutine exists
  exactly when its \<open>go\<close> statement has run; behind each \<open>wg.Wait()\<close> every
  goroutine of the stage has finished.
\<close>

definition acct :: "'cb App \<Rightarrow> 'cb state \<Rightarrow> bool" where
  "acct a st =
     ((\<forall>i<length (servers a). (stops st ! i = Unspawned) = (nstop (length (servers a)) (pc st) \<le> i)) \<and>
      (\<forall>j<length (cbs a). (cbst st ! j = Unspawned) = (ncb (length (cbs a)) (pc st) \<le> j)) \<and>
      wg st = int (length (filter active (stops st))) + int (length (filter active (cbst st))) \<and>
      (5 \<le> rank (pc st) \<longrightarrow> (\<forall>i<length (servers a). stops st ! i = Finished)) \<and>
      (7 \<le> rank (pc st) \<longrightarrow> (\<forall>j<length (cbs a). cbst st ! j = Finished)))"

text \<open>The events that record a \<open>rejectReq\<close> call.\<close>

fun is_Rejected :: "event \<Rightarrow> bool" where
  "is_Rejected (Rejected _) = True"
| "is_Rejected _ = False"

text \<open>The response of lines 178-179 on a fresh writer.\<close>

definition unavailable :: ResponseWriter where
  "unavailable = \<lparr>status = Some 503, body = unavailable_body\<rparr>"

text \<open>What the trace records about the state.\<close>

definition links :: "'cb App \<Rightarrow> 'cb state \<Rightarrow> bool" where
  "links a st =
     ((\<forall>i<nrej (length (servers a)) (pc st). reject (mux (servers (app st) ! i))) \<and>
      filter is_Rejected (trace st) = map Rejected [0..<nrej (length (servers a)) (pc st)] \<and>
      (Triggered \<in> set (trace st)) = (pc st \<noteq> AwaitSignal) \<and>
      (SleepBegin (waitTime a) \<in> set (trace st)) = (2 \<le> rank (pc st)) \<and>
      (SleepEnd \<in> set (trace st)) = (3 \<le> rank (pc st)) \<and>
      (StopsJoined \<in> set (trace st)) = (5 \<le> rank (pc st)) \<and>
      (CloseBegin \<in> set (trace st)) = (7 \<le> rank (pc st)) \<and>
      (\<forall>i<length (servers a). stops st ! i = Spawned \<longrightarrow> GoStop i \<in> set (trace st)) \<and>
      (\<forall>i<length (servers a). stops st ! i = Running \<longrightarrow> StopCalled i \<in> set (trace st)) \<and>
      (\<forall>j<length (cbs a). cbst st ! j = Spawned \<longrightarrow> GoCallback j \<in> set (trace st)) \<and>
      (\<forall>j<length (cbs a). cbst st ! j = Running \<longrightarrow>
         CbCalled j (WithTimeout Background (cbTimeout a)) \<in> set (trace st)) \<and>
      (CloseEnd \<in> set (trace st)) = (8 \<le> rank (pc st)) \<and>
      (\<forall>i<length (servers a). stops st ! i = Finished \<longrightarrow>
         (\<exists>res. StopReturned i res \<in> set (trace st))) \<and>
      (\<forall>j<length (cbs a). cbst st ! j = Finished \<longrightarrow> CbReturned j \<in> set (trace st)))"

text \<open>
  The stages that a trace \<open>pre\<close> has behind it. Stage 1: the signal has come and
  \<open>rejectReq\<close> has been called on every server, in registry order, and on no server
  twice. Stage 2: moreover the sleep of \<open>app.waitTime\<close> has begun and ended. Stage 3:
  moreover every server's \<open>stop()\<close> has returned. Stage 4: moreover every callback has
  returned.
\<close>

definition rejected_all :: "'cb App \<Rightarrow> event list \<Rightarrow> bool" where
  "rejected_all a pre =
     (Triggered \<in> set pre \<and> filter is_Rejected pre = map Rejected [0..<length (servers a)])"

definition drained :: "'cb App \<Rightarrow> event list \<Rightarrow> bool" where
  "drained a pre =
     (rejected_all a pre \<and> SleepBegin (waitTime a) \<in> set pre \<and> SleepEnd \<in> set pre)"

definition stopped_all :: "'cb App \<Rightarrow> event list \<Rightarrow> bool" where
  "stopped_all a pre =
     (drained a pre \<and> (\<forall>i<length (servers a). \<exists>res. StopReturned i res \<in> set pre))"

definition called_back_all :: "'cb App \<Rightarrow> event list \<Rightarrow> bool" where
  "called_back_all a pre =
     (stopped_all a pre \<and> StopsJoined \<in> set pre \<and>
      (\<forall>j<length (cbs a). CbReturned j \<in> set pre))"

text \<open>
  What must already have happened (\<open>pre\<close>) when an event happens: the ordering of the
  stages, event by event. \<open>StopsJoined\<close> is the return of the \<open>wg.Wait()\<close> of line 137;
  \<open>CloseBegin\<close> follows the return of the one of line 151.
\<close>

fun stage_ok :: "'cb App \<Rightarrow> event list \<Rightarrow> event \<Rightarrow> bool" where
  "stage_ok a pre (Rejected i) =
     (Triggered \<in> set pre \<and> i < length (servers a) \<and>
      filter is_Rejected pre = map Rejected [0..<i] \<and>
      SleepBegin (waitTime a) \<notin> set pre)"
| "stage_ok a pre (SleepBegin d) =
     (d = waitTime a \<and> rejected_all a pre \<and> SleepBegin d \<notin> set pre)"
| "stage_ok a pre SleepEnd =
     (rejected_all a pre \<and> SleepBegin (waitTime a) \<in> set pre \<and> SleepEnd \<notin> set pre)"
| "stage_ok a pre (GoStop i) = (drained a pre \<and> StopsJoined \<notin> set pre)"
| "stage_ok a pre (StopCalled i) =
     (drained a pre \<and> GoStop i \<in> set pre \<and> StopsJoined \<notin> set pre)"
| "stage_ok a pre (StopReturned i res) =
     (drained a pre \<and> StopCalled i \<in> set pre \<and> StopsJoined \<notin> set pre)"
| "stage_ok a pre StopsJoined = (stopped_all a pre \<and> StopsJoined \<notin> set pre)"
| "stage_ok a pre (GoCallback j) =
     (stopped_all a pre \<and> StopsJoined \<in> set pre \<and> CloseBegin \<notin> set pre)"
| "stage_ok a pre (CbCalled j c) =
     (c = WithTimeout Background (cbTimeout a) \<and> stopped_all a pre \<and>
      StopsJoined \<in> set pre \<and> GoCallback j \<in> set pre \<and> CloseBegin \<notin> set pre)"
| "stage_ok a pre (CbReturned j) =
     (stopped_all a pre \<and> StopsJoined \<in> set pre \<and>
      CbCalled j (WithTimeout Background (cbTimeout a)) \<in> set pre \<and>
      CloseBegin \<notin> set pre)"
| "stage_ok a pre (CbPanicked j) =
     (stopped_all a pre \<and> StopsJoined \<in> set pre \<and>
      CbCalled j (WithTimeout Background (cbTimeout a)) \<in> set pre \<and>
      CloseBegin \<notin> set pre)"
| "stage_ok a pre CloseBegin = (called_back_all a pre \<and> CloseBegin \<notin> set pre)"
| "stage_ok a pre CloseEnd =
     (called_back_all a pre \<and> CloseBegin \<in> set pre \<and> CloseEnd \<notin> set pre)"
| "stage_ok a pre (Served i r w) = (Rejected i \<in> set pre \<longrightarrow> w = unavailable)"
| "stage_ok a pre _ = True"

text \<open>Every event of a trace happened in order.\<close>

definition hist :: "'cb App \<Rightarrow> event list \<Rightarrow> bool" where
  "hist a tr = (\<forall>pre e post. tr = pre @ e # post \<longrightarrow> stage_ok a pre e)"

definition inv :: "'cb App \<Rightarrow> 'cb state \<Rightarrow> bool" where
  "inv a st = (shape a st \<and> acct a st \<and> links a st \<and> hist a (trace st))"

section \<open>Stop results and concrete runs\<close>

text \<open>
  Replacing the result of every \<open>Shutdown\<close> by nil: in an action, and in the event that
  records it.
\<close>

fun nil_result :: "action \<Rightarrow> action" where
  "nil_result (StopReturn i res) = StopReturn i None"
| "nil_result x = x"

fun nil_event :: "event \<Rightarrow> event" where
  "nil_event (StopReturned i res) = StopReturned i None"
| "nil_event e = e"

definition forget_results :: "'cb state \<Rightarrow> 'cb state" where
  "forget_results st = st\<lparr>trace := map nil_event (trace st)\<rparr>"

text \<open>
  A concrete application: one server, one callback, built as a caller would build it;
  the caller has registered one handler, for every path, that answers 200 with the two
  bytes \<open>ok\<close>. In the run below a request is admitted before the signal, a second one arrives after
  \<open>rejectReq\<close>, both finish during the drain, \<open>Shutdown\<close> returns an error, and the
  callback returns.
\<close>

definition demo_mux :: Handler where
  "demo_mux w r = Write [0x6F, 0x6B] (WriteHeader 200 w)"

definition demo_server :: Server where
  "demo_server = NewServer demo_mux ''web'' '':8080''"

definition demo_app :: "unit App" where
  "demo_app = NewApp [demo_server] [WithShutdownCallbacks [()]]"

definition demo_req :: Request where
  "demo_req = Request ''GET'' ''/''"

definition demo_stop_sched :: "action list" where
  "demo_stop_sched =
     [ReqArrive 0 demo_req, Signal, Main, ReqArrive 0 demo_req, Main, ReqDone 0, ReqDone 0,
      Main, Main, Main, StopBegin 0]"

definition demo_sched :: "error option \<Rightarrow> action list" where
  "demo_sched res =
     demo_stop_sched @ [StopReturn 0 res, Main, Main, Main, CbBegin 0, CbReturn 0, Main, Main]"

definition demo_stopping :: "unit state" where
  "demo_stopping = the (run demo_stop_sched (init demo_app))"

definition demo_final :: "unit state" where
  "demo_final = the (run (demo_sched (Some ListenerCloseError)) (init demo_app))"

definition demo_rejected :: "event list" where
  "demo_rejected =
     [Served 0 demo_req \<lparr>status = Some 200, body = [0x6F, 0x6B]\<rparr>, Triggered, Rejected 0]"

definition demo_before_sleep :: "event list" where
  "demo_before_sleep =
     demo_rejected @ [Served 0 demo_req \<lparr>status = Some 503, body = unavailable_body\<rparr>]"

definition demo_drain_to_close :: "event list" where
  "demo_drain_to_close =
     [SleepBegin 10000000000, Completed 0, Completed 0, SleepEnd, GoStop 0, StopCalled 0,
      StopReturned 0 (Some ListenerCloseError), StopsJoined, GoCallback 0,
      CbCalled 0 (WithTimeout Background 3000000000), CbReturned 0]"

definition demo_before_close :: "event list" where
  "demo_before_close = demo_before_sleep @ demo_drain_to_close"

definition demo_results :: "nat \<Rightarrow> error option" where
  "demo_results i = Some ListenerCloseError"

definition demo_log :: "logline list" where
  "demo_log =
     [LogShutdownBegin, LogServerRejected ''web'', LogWaitRequests, LogStoppingServers,
      LogServerStopping ''web'', LogRunCallbacks, LogRelease, LogAppClosed]"

text \<open>The state during the drain sleep, with no request at all.\<close>

definition demo_triggered :: "unit state" where
  "demo_triggered = the (run [Signal] (init demo_app))"

definition demo_draining :: "unit state" where
  "demo_draining = the (run [Signal, Main, Main] (init demo_app))"

text \<open>
  A request admitted before the signal that never finishes, up to the call of
  \<open>srv.stop()\<close> after the drain.
\<close>

definition slow_sched :: "action list" where
  "slow_sched = [ReqArrive 0 demo_req, Signal, Main, Main, Main, Main, Main, StopBegin 0]"

text \<open>
  Two callbacks. Both goroutines are started and the controlling goroutine waits at line
  151; then the first callback is called.
\<close>

definition demo_app2 :: "unit App" where
  "demo_app2 = NewApp [demo_server] [WithShutdownCallbacks [(), ()]]"

definition cb_sched :: "action list" where
  "cb_sched =
     [Signal, Main, Main, Main, Main, Main, StopBegin 0, StopReturn 0 None,
      Main, Main, Main, Main, CbBegin 0]"

definition demo_waiting :: "unit state" where
  "demo_waiting = the (run cb_sched (init demo_app2))"

text \<open>
  The run in which nothing interferes: the signal, the whole of \<open>shutdown\<close>, every
  \<open>stop\<close> goroutine in turn with the result \<open>rs i\<close> for server \<open>i\<close>, every callback in
  turn.
\<close>

definition stop_actions :: "(nat \<Rightarrow> error option) \<Rightarrow> nat \<Rightarrow> nat \<Rightarrow> action list" where
  "stop_actions rs i k = concat (map (\<lambda>j. [StopBegin j, StopReturn j (rs j)]) [i..<i + k])"

definition cb_actions :: "nat \<Rightarrow> nat \<Rightarrow> action list" where
  "cb_actions i k = concat (map (\<lambda>j. [CbBegin j, CbReturn j]) [i..<i + k])"

definition full_sched :: "nat \<Rightarrow> nat \<Rightarrow> (nat \<Rightarrow> error option) \<Rightarrow> action list" where
  "full_sched n m rs =
     [Signal] @ replicate n Main @ [Main, Main] @ replicate n Main @ [Main]
     @ stop_actions rs 0 n @ [Main] @ replicate m Main @ [Main]
     @ cb_actions 0 m @ [Main, Main]"

text \<open>
  A live reachable state at point \<open>p\<close> whose goroutines have the statuses \<open>f\<close> and \<open>g\<close>
  and whose servers have no request in flight.
\<close>

definition at :: "'cb App \<Rightarrow> 'cb state \<Rightarrow> point \<Rightarrow> (nat \<Rightarrow> gstatus) \<Rightarrow> (nat \<Rightarrow> gstatus) \<Rightarrow> bool" where
  "at a st p f g =
     (inv a st \<and> pc st = p \<and> exited st = None \<and>
      (\<forall>i<length (servers a). stops st ! i = f i) \<and>
      (\<forall>j<length (cbs a). cbst st ! j = g j) \<and>
      (\<forall>i<length (servers a). inflight (srv (servers (app st) ! i)) = 0))"

section \<open>Proofs of the invariants\<close>

lemma shape_init: "shape a (init a)"
  by (simp add: shape_def init_def)

lemmas effect_defs = emit_def logp_def os_Exit_def go_panic_def wg_Add1_def wg_Done_def
  upd_server_def

lemma shape_step: "shape a st \<Longrightarrow> step x st = Some st' \<Longrightarrow> shape a st'"
  unfolding step_def main_step_def shape_def
  by (auto simp: effect_defs
        split: action.splits point.splits if_splits)

lemma acct_init: "acct a (init a)"
  by (simp add: acct_def init_def)

lemma filter_update_count:
  "i < length xs \<Longrightarrow>
   length (filter P (xs[i := v])) + (if P (xs ! i) then 1 else 0) =
   length (filter P xs) + (if P v then 1 else 0)"
proof (induction xs arbitrary: i)
  case Nil
  then show ?case by simp
next
  case (Cons y ys)
  show ?case
  proof (cases i)
    case 0
    then show ?thesis by simp
  next
    case (Suc k)
    with Cons.prems have "k < length ys" by simp
    from Cons.IH[OF this] Suc show ?thesis by simp
  qed
qed

lemma no_active_nth: "length (filter P xs) = 0 \<Longrightarrow> i < length xs \<Longrightarrow> \<not> P (xs ! i)"
  by (auto simp: filter_empty_conv)

lemma active_pos: "i < length xs \<Longrightarrow> P (xs ! i) \<Longrightarrow> 0 < length (filter P xs)"
  using no_active_nth by fastforce

lemma not_active_cases: "\<not> active g \<Longrightarrow> g \<noteq> Unspawned \<Longrightarrow> g = Finished"
  by (cases g) auto

lemma step_alive: "step x st = Some st' \<Longrightarrow> exited st = None"
  by (auto simp: step_def split: if_splits)

lemma stepE [consumes 1, case_names trigger second deadline reject sleep wake gostop stopsdone
    join1 gocb cbsdone join2 closed stopbegin stopreturn stoppanic cbbegin cbreturn cbdonepanic
    cbpanic reqarrive reqdone]:
  assumes "step x st = Some st'"
  obtains
    "x = Signal" "pc st = AwaitSignal"
      "st' = st\<lparr>pc := Rejecting 0, trace := trace st @ [Triggered],
                 logs := logs st @ [LogShutdownBegin]\<rparr>"
  | "x = Signal" "pc st \<noteq> AwaitSignal"
      "st' = st\<lparr>exited := Some 1, trace := trace st @ [Exited 1],
                 logs := logs st @ [LogSecondSignal]\<rparr>"
  | "x = TimerFire" "pc st \<noteq> AwaitSignal"
      "st' = st\<lparr>exited := Some 1, trace := trace st @ [Exited 1],
                 logs := logs st @ [LogDeadline]\<rparr>"
  | i where "x = Main" "pc st = Rejecting i" "i < length (servers (app st))"
      "st' = st\<lparr>app := upd_server i rejectReq (app st), pc := Rejecting (Suc i),
                 trace := trace st @ [Rejected i],
                 logs := logs st @ [LogServerRejected (name (servers (app st) ! i))]\<rparr>"
  | i where "x = Main" "pc st = Rejecting i" "\<not> i < length (servers (app st))"
      "st' = st\<lparr>pc := Draining, trace := trace st @ [SleepBegin (waitTime (app st))],
                 logs := logs st @ [LogWaitRequests]\<rparr>"
  | "x = Main" "pc st = Draining"
      "st' = st\<lparr>pc := StoppingServers 0, trace := trace st @ [SleepEnd],
                 logs := logs st @ [LogStoppingServers]\<rparr>"
  | i where "x = Main" "pc st = StoppingServers i" "i < length (servers (app st))"
      "st' = st\<lparr>pc := StoppingServers (Suc i), wg := wg st + 1,
                 stops := (stops st)[i := Spawned], trace := trace st @ [GoStop i]\<rparr>"
  | i where "x = Main" "pc st = StoppingServers i" "\<not> i < length (servers (app st))"
      "st' = st\<lparr>pc := WaitStopped\<rparr>"
  | "x = Main" "pc st = WaitStopped" "wg st = 0"
      "st' = st\<lparr>pc := RunningCallbacks 0, trace := trace st @ [StopsJoined],
                 logs := logs st @ [LogRunCallbacks]\<rparr>"
  | j where "x = Main" "pc st = RunningCallbacks j" "j < length (cbs (app st))"
      "st' = st\<lparr>pc := RunningCallbacks (Suc j), wg := wg st + 1,
                 cbst := (cbst st)[j := Spawned], trace := trace st @ [GoCallback j]\<rparr>"
  | j where "x = Main" "pc st = RunningCallbacks j" "\<not> j < length (cbs (app st))"
      "st' = st\<lparr>pc := WaitCallbacks\<rparr>"
  | "x = Main" "pc st = WaitCallbacks" "wg st = 0"
      "st' = st\<lparr>pc := Releasing, trace := trace st @ [CloseBegin],
                 logs := logs st @ [LogRelease]\<rparr>"
  | "x = Main" "pc st = Releasing"
      "st' = st\<lparr>pc := Returned, trace := trace st @ [CloseEnd],
                 logs := logs st @ [LogAppClosed]\<rparr>"
  | i where "x = StopBegin i" "i < length (stops st)" "i < length (servers (app st))"
      "stops st ! i = Spawned"
      "st' = st\<lparr>app := upd_server i (\<lambda>s. s\<lparr>srv := (srv s)\<lparr>inShutdown := True\<rparr>\<rparr>) (app st),
                 stops := (stops st)[i := Running], trace := trace st @ [StopCalled i],
                 logs := logs st @ [LogServerStopping (name (servers (app st) ! i))]\<rparr>"
  | i res where "x = StopReturn i res" "i < length (stops st)" "i < length (servers (app st))"
      "stops st ! i = Running" "inflight (srv (servers (app st) ! i)) = 0"
      "res \<noteq> Some DeadlineExceeded" "1 \<le> wg st"
      "st' = st\<lparr>wg := wg st - 1, stops := (stops st)[i := Finished],
                 trace := trace st @ [StopReturned i res]\<rparr>"
  | i res where "x = StopReturn i res" "i < length (stops st)" "i < length (servers (app st))"
      "stops st ! i = Running" "inflight (srv (servers (app st) ! i)) = 0"
      "res \<noteq> Some DeadlineExceeded" "wg st < 1"
      "st' = st\<lparr>stops := (stops st)[i := Finished], exited := Some 2,
                 trace := trace st @ [StopReturned i res, Exited 2]\<rparr>"
  | j where "x = CbBegin j" "j < length (cbst st)" "cbst st ! j = Spawned"
      "st' = st\<lparr>cbst := (cbst st)[j := Running],
                 trace := trace st @ [CbCalled j (WithTimeout Background (cbTimeout (app st)))]\<rparr>"
  | j where "x = CbReturn j" "j < length (cbst st)" "cbst st ! j = Running" "1 \<le> wg st"
      "st' = st\<lparr>wg := wg st - 1, cbst := (cbst st)[j := Finished],
                 trace := trace st @ [CbReturned j]\<rparr>"
  | j where "x = CbReturn j" "j < length (cbst st)" "cbst st ! j = Running" "wg st < 1"
      "st' = st\<lparr>cbst := (cbst st)[j := Finished], exited := Some 2,
                 trace := trace st @ [CbReturned j, Exited 2]\<rparr>"
  | j where "x = CbPanic j" "j < length (cbst st)" "cbst st ! j = Running"
      "st' = st\<lparr>exited := Some 2, trace := trace st @ [CbPanicked j, Exited 2]\<rparr>"
  | i r where "x = ReqArrive i r" "i < length (servers (app st))"
      "\<not> inShutdown (srv (servers (app st) ! i))"
      "st' = st\<lparr>app := upd_server i
                   (\<lambda>s. s\<lparr>srv := (srv s)\<lparr>inflight := Suc (inflight (srv s))\<rparr>\<rparr>) (app st),
                 trace := trace st @
                   [Served i r (ServeHTTP (mux (servers (app st) ! i)) newResponse r)]\<rparr>"
  | i where "x = ReqDone i" "i < length (servers (app st))"
      "0 < inflight (srv (servers (app st) ! i))"
      "st' = st\<lparr>app := upd_server i
                   (\<lambda>s. s\<lparr>srv := (srv s)\<lparr>inflight := inflight (srv s) - 1\<rparr>\<rparr>) (app st),
                 trace := trace st @ [Completed i]\<rparr>"
proof (cases x)
  case Main
  with assms have m: "main_step st = Some st'"
    by (simp add: step_def split: if_splits)
  show ?thesis
  proof (cases "pc st")
    case AwaitSignal
    with m show ?thesis by (simp add: main_step_def)
  next
    case (Rejecting i)
    with m Main that(4)[of i] that(5)[of i] show ?thesis
      by (cases "i < length (servers (app st))")
         (auto simp: main_step_def emit_def logp_def)
  next
    case Draining
    with m Main that(6) show ?thesis
      by (auto simp: main_step_def emit_def logp_def)
  next
    case (StoppingServers i)
    with m Main that(7)[of i] that(8)[of i] show ?thesis
      by (cases "i < length (servers (app st))")
         (auto simp: main_step_def emit_def logp_def wg_Add1_def)
  next
    case WaitStopped
    with m Main that(9) show ?thesis
      by (auto simp: main_step_def emit_def logp_def split: if_splits)
  next
    case (RunningCallbacks j)
    with m Main that(10)[of j] that(11)[of j] show ?thesis
      by (cases "j < length (cbs (app st))")
         (auto simp: main_step_def emit_def logp_def wg_Add1_def)
  next
    case WaitCallbacks
    with m Main that(12) show ?thesis
      by (auto simp: main_step_def emit_def logp_def split: if_splits)
  next
    case Releasing
    with m Main that(13) show ?thesis
      by (auto simp: main_step_def emit_def logp_def)
  next
    case Returned
    with m show ?thesis by (simp add: main_step_def)
  qed
next
  case Signal
  with assms that(1) that(2) show ?thesis
    by (cases "pc st = AwaitSignal")
       (auto simp: step_def emit_def logp_def os_Exit_def split: if_splits)
next
  case TimerFire
  with assms that(3) show ?thesis
    by (auto simp: step_def emit_def logp_def os_Exit_def split: if_splits)
next
  case (StopBegin i)
  with assms that(14)[of i] show ?thesis
    by (auto simp: step_def emit_def logp_def split: if_splits)
next
  case (StopReturn i res)
  with assms that(15)[of i res] that(16)[of i res] show ?thesis
    by (cases "wg st < 1")
       (auto simp: step_def emit_def wg_Done_def go_panic_def os_Exit_def
          Shutdown_returns_def split: if_splits)
next
  case (CbBegin j)
  with assms that(17)[of j] show ?thesis
    by (auto simp: step_def emit_def split: if_splits)
next
  case (CbReturn j)
  with assms that(18)[of j] that(19)[of j] show ?thesis
    by (cases "wg st < 1")
       (auto simp: step_def emit_def wg_Done_def go_panic_def os_Exit_def split: if_splits)
next
  case (CbPanic j)
  with assms that(20)[of j] show ?thesis
    by (auto simp: step_def emit_def go_panic_def os_Exit_def split: if_splits)
next
  case (ReqArrive i r)
  with assms that(21)[of i r] show ?thesis
    by (auto simp: step_def emit_def split: if_splits)
next
  case (ReqDone i)
  with assms that(22)[of i] show ?thesis
    by (auto simp: step_def emit_def split: if_splits)
qed

lemma acct_step:
  assumes sh: "shape a st" and ac: "acct a st" and st: "step x st = Some st'"
  shows "acct a st'"
  using st
proof (cases rule: stepE)
  case trigger
  with sh ac show ?thesis by (simp add: acct_def shape_def)
next
  case second
  with sh ac show ?thesis by (simp add: acct_def shape_def)
next
  case deadline
  with sh ac show ?thesis by (simp add: acct_def shape_def)
next
  case (reject i)
  with sh ac show ?thesis by (simp add: acct_def shape_def)
next
  case (sleep i)
  with sh ac show ?thesis by (simp add: acct_def shape_def)
next
  case wake
  with sh ac show ?thesis by (simp add: acct_def shape_def)
next
  case (gostop i)
  with sh ac have u: "stops st ! i = Unspawned" and l: "i < length (stops st)"
    by (simp_all add: acct_def shape_def)
  from filter_update_count[OF l, of active Spawned] u
  have "length (filter active ((stops st)[i := Spawned])) = length (filter active (stops st)) + 1"
    by simp
  with gostop sh ac show ?thesis
    by (auto simp: acct_def shape_def nth_list_update)
next
  case (stopsdone i)
  with sh ac show ?thesis by (simp add: acct_def shape_def)
next
  case join1
  with ac have "int (length (filter active (stops st))) +
      int (length (filter active (cbst st))) = 0"
    by (simp add: acct_def)
  then have z: "length (filter active (stops st)) = 0" by linarith
  from join1 sh ac have n: "\<forall>i<length (servers a). stops st ! i \<noteq> Unspawned"
    and l: "length (stops st) = length (servers a)"
    by (simp_all add: acct_def shape_def)
  have "\<forall>i<length (servers a). stops st ! i = Finished"
    using no_active_nth[OF z] n l not_active_cases by metis
  with join1 sh ac show ?thesis by (simp add: acct_def shape_def)
next
  case (gocb j)
  with sh ac have u: "cbst st ! j = Unspawned" and l: "j < length (cbst st)"
    by (simp_all add: acct_def shape_def)
  from filter_update_count[OF l, of active Spawned] u
  have "length (filter active ((cbst st)[j := Spawned])) = length (filter active (cbst st)) + 1"
    by simp
  with gocb sh ac show ?thesis
    by (auto simp: acct_def shape_def nth_list_update)
next
  case (cbsdone j)
  with sh ac show ?thesis by (simp add: acct_def shape_def)
next
  case join2
  with ac have "int (length (filter active (stops st))) +
      int (length (filter active (cbst st))) = 0"
    by (simp add: acct_def)
  then have z: "length (filter active (cbst st)) = 0" by linarith
  from join2 sh ac have n: "\<forall>j<length (cbs a). cbst st ! j \<noteq> Unspawned"
    and l: "length (cbst st) = length (cbs a)"
    by (simp_all add: acct_def shape_def)
  have "\<forall>j<length (cbs a). cbst st ! j = Finished"
    using no_active_nth[OF z] n l not_active_cases by metis
  with join2 sh ac show ?thesis by (simp add: acct_def shape_def)
next
  case closed
  with sh ac show ?thesis by (simp add: acct_def shape_def)
next
  case (stopbegin i)
  from filter_update_count[OF stopbegin(2), of active Running] stopbegin(4)
  have "length (filter active ((stops st)[i := Running])) = length (filter active (stops st))"
    by simp
  with stopbegin sh ac show ?thesis
    by (auto simp: acct_def shape_def nth_list_update)
next
  case (stopreturn i res)
  from filter_update_count[OF stopreturn(2), of active Finished] stopreturn(4)
  have "length (filter active ((stops st)[i := Finished])) + 1 = length (filter active (stops st))"
    by simp
  then have "int (length (filter active ((stops st)[i := Finished]))) =
      int (length (filter active (stops st))) - 1"
    by linarith
  moreover from ac stopreturn(1,2,4) sh have "pc st \<noteq> Releasing \<and> pc st \<noteq> Returned \<and> rank (pc st) < 5"
    by (cases "pc st") (auto simp: acct_def shape_def)
  ultimately show ?thesis using stopreturn sh ac
    by (auto simp: acct_def shape_def nth_list_update)
next
  case (stoppanic i res)
  from active_pos[OF stoppanic(2), of active] stoppanic(4)
  have "0 < length (filter active (stops st))" by simp
  with ac stoppanic(7) show ?thesis by (simp add: acct_def)
next
  case (cbbegin j)
  from filter_update_count[OF cbbegin(2), of active Running] cbbegin(3)
  have "length (filter active ((cbst st)[j := Running])) = length (filter active (cbst st))"
    by simp
  with cbbegin sh ac show ?thesis
    by (auto simp: acct_def shape_def nth_list_update)
next
  case (cbreturn j)
  from filter_update_count[OF cbreturn(2), of active Finished] cbreturn(3)
  have "length (filter active ((cbst st)[j := Finished])) + 1 = length (filter active (cbst st))"
    by simp
  then have "int (length (filter active ((cbst st)[j := Finished]))) =
      int (length (filter active (cbst st))) - 1"
    by linarith
  then show ?thesis using cbreturn sh ac
    by (auto simp: acct_def shape_def nth_list_update)
next
  case (cbdonepanic j)
  from active_pos[OF cbdonepanic(2), of active] cbdonepanic(3)
  have "0 < length (filter active (cbst st))" by simp
  with ac cbdonepanic(4) show ?thesis by (simp add: acct_def)
next
  case (cbpanic j)
  with sh ac show ?thesis by (simp add: acct_def shape_def)
next
  case (reqarrive i r)
  with sh ac show ?thesis by (simp add: acct_def shape_def)
next
  case (reqdone i)
  with sh ac show ?thesis by (simp add: acct_def shape_def)
qed

lemma links_init: "links a (init a)"
  by (simp add: links_def init_def)

lemma links_step:
  assumes sh: "shape a st" and li: "links a st" and st: "step x st = Some st'"
  shows "links a st'"
  using st
proof (cases rule: stepE)
  case trigger
  with sh li show ?thesis by (simp add: links_def shape_def)
next
  case second
  with sh li show ?thesis by (simp add: links_def shape_def)
next
  case deadline
  with sh li show ?thesis by (simp add: links_def shape_def)
next
  case (reject i)
  with sh li show ?thesis
    by (auto simp: links_def shape_def upd_server_def rejectReq_def nth_list_update
          less_Suc_eq)
next
  case (sleep i)
  with sh li show ?thesis by (simp add: links_def shape_def)
next
  case wake
  with sh li show ?thesis by (simp add: links_def shape_def)
next
  case (gostop i)
  with sh li show ?thesis by (auto simp: links_def shape_def nth_list_update)
next
  case (stopsdone i)
  with sh li show ?thesis by (simp add: links_def shape_def)
next
  case join1
  with sh li show ?thesis by (simp add: links_def shape_def)
next
  case (gocb j)
  with sh li show ?thesis by (auto simp: links_def shape_def nth_list_update)
next
  case (cbsdone j)
  with sh li show ?thesis by (simp add: links_def shape_def)
next
  case join2
  with sh li show ?thesis by (simp add: links_def shape_def)
next
  case closed
  with sh li show ?thesis by (simp add: links_def shape_def)
next
  case (stopbegin i)
  with sh li show ?thesis
    by (auto simp: links_def shape_def upd_server_def nth_list_update)
next
  case (stopreturn i res)
  with sh li show ?thesis
    by (auto simp: links_def shape_def nth_list_update)
next
  case (stoppanic i res)
  with sh li show ?thesis
    by (auto simp: links_def shape_def nth_list_update)
next
  case (cbbegin j)
  with sh li show ?thesis by (auto simp: links_def shape_def nth_list_update)
next
  case (cbreturn j)
  with sh li show ?thesis by (auto simp: links_def shape_def nth_list_update)
next
  case (cbdonepanic j)
  with sh li show ?thesis by (auto simp: links_def shape_def nth_list_update)
next
  case (cbpanic j)
  with sh li show ?thesis by (simp add: links_def shape_def)
next
  case (reqarrive i r)
  with sh li show ?thesis
    by (auto simp: links_def shape_def upd_server_def nth_list_update)
next
  case (reqdone i)
  with sh li show ?thesis
    by (auto simp: links_def shape_def upd_server_def nth_list_update)
qed

lemma hist_Nil: "hist a []"
  by (simp add: hist_def)

lemma hist_snoc:
  assumes "hist a tr" and "stage_ok a tr e"
  shows "hist a (tr @ [e])"
  unfolding hist_def
proof (intro allI impI)
  fix pre x post
  assume eq: "tr @ [e] = pre @ x # post"
  show "stage_ok a pre x"
  proof (cases post rule: rev_cases)
    case Nil
    with eq assms(2) show ?thesis by simp
  next
    case (snoc post' y)
    with eq have "tr = pre @ x # post'" by simp
    with assms(1) show ?thesis by (auto simp: hist_def)
  qed
qed

lemma hist_snoc2:
  assumes "hist a tr" and "stage_ok a tr e" and "stage_ok a (tr @ [e]) e'"
  shows "hist a (tr @ [e, e'])"
  using hist_snoc[OF hist_snoc[OF assms(1,2)] assms(3)] by simp

lemma unavailable_response:
  "reject m \<Longrightarrow> ServeHTTP m newResponse r = unavailable"
  by (simp add: ServeHTTP_def Write_def WriteHeader_def newResponse_def
        StatusServiceUnavailable_def unavailable_def)

lemma nstop_rank: "i < nstop n p \<Longrightarrow> 3 \<le> rank p"
  by (cases p) auto

lemma ncb_rank: "j < ncb m p \<Longrightarrow> 5 \<le> rank p"
  by (cases p) auto

lemma Rejected_index:
  assumes "links a st" and "Rejected i \<in> set (trace st)"
  shows "i < nrej (length (servers a)) (pc st)"
proof -
  from assms(2) have "Rejected i \<in> set (filter is_Rejected (trace st))" by simp
  with assms(1) have "Rejected i \<in> set (map Rejected [0..<nrej (length (servers a)) (pc st)])"
    by (simp add: links_def)
  then show ?thesis by auto
qed

lemma nrej_rank: "2 \<le> rank p \<Longrightarrow> nrej n p = n"
  by (cases p) simp_all

lemma armed_rank: "1 \<le> rank p \<Longrightarrow> p \<noteq> AwaitSignal"
  by (cases p) simp_all

lemma behind_stage1:
  assumes "links a st" and "2 \<le> rank (pc st)"
  shows "rejected_all a (trace st) \<and> SleepBegin (waitTime a) \<in> set (trace st)"
proof -
  from assms(2) have "1 \<le> rank (pc st)" by simp
  from armed_rank[OF this] assms nrej_rank[OF assms(2), of "length (servers a)"]
  show ?thesis by (simp add: links_def rejected_all_def)
qed

lemma behind_stage2:
  assumes "links a st" and "3 \<le> rank (pc st)"
  shows "drained a (trace st)"
proof -
  from assms(2) have "2 \<le> rank (pc st)" by simp
  from behind_stage1[OF assms(1) this] assms show ?thesis
    by (simp add: links_def drained_def)
qed

lemma behind_stage3:
  assumes "acct a st" and "links a st" and "5 \<le> rank (pc st)"
  shows "stopped_all a (trace st) \<and> StopsJoined \<in> set (trace st)"
proof -
  from assms(3) have "3 \<le> rank (pc st)" by simp
  from behind_stage2[OF assms(2) this] assms show ?thesis
    by (simp add: acct_def links_def stopped_all_def)
qed

lemma behind_stage4:
  assumes "acct a st" and "links a st" and "7 \<le> rank (pc st)"
  shows "called_back_all a (trace st)"
proof -
  from assms(3) have "5 \<le> rank (pc st)" by simp
  from behind_stage3[OF assms(1,2) this] assms show ?thesis
    by (simp add: acct_def links_def called_back_all_def)
qed

lemma stop_running_rank:
  assumes "shape a st" and "acct a st" and "i < length (servers a)"
    and "stops st ! i \<noteq> Unspawned"
  shows "3 \<le> rank (pc st)"
proof -
  from assms have "i < nstop (length (servers a)) (pc st)"
    by (auto simp: acct_def)
  then show ?thesis by (rule nstop_rank)
qed

lemma cb_running_rank:
  assumes "shape a st" and "acct a st" and "j < length (cbs a)"
    and "cbst st ! j \<noteq> Unspawned"
  shows "5 \<le> rank (pc st)"
proof -
  from assms have "j < ncb (length (cbs a)) (pc st)"
    by (auto simp: acct_def)
  then show ?thesis by (rule ncb_rank)
qed

lemma stop_unfinished_rank:
  assumes "acct a st" and "i < length (servers a)" and "stops st ! i \<noteq> Finished"
  shows "\<not> 5 \<le> rank (pc st)"
  using assms by (auto simp: acct_def)

lemma cb_unfinished_rank:
  assumes "acct a st" and "j < length (cbs a)" and "cbst st ! j \<noteq> Finished"
  shows "\<not> 7 \<le> rank (pc st)"
  using assms by (auto simp: acct_def)

lemma hist_step:
  assumes sh: "shape a st" and ac: "acct a st" and li: "links a st"
    and hi: "hist a (trace st)" and st: "step x st = Some st'"
  shows "hist a (trace st')"
  using st
proof (cases rule: stepE)
  case trigger
  with hi show ?thesis by (simp add: hist_snoc)
next
  case second
  with hi show ?thesis by (simp add: hist_snoc)
next
  case deadline
  with hi show ?thesis by (simp add: hist_snoc)
next
  case (reject i)
  with sh li have "stage_ok a (trace st) (Rejected i)"
    by (simp add: links_def shape_def)
  with reject hi show ?thesis by (simp add: hist_snoc)
next
  case (sleep i)
  with sh have "i = length (servers a)" by (simp add: shape_def)
  with sleep sh li have "stage_ok a (trace st) (SleepBegin (waitTime a))"
    by (simp add: links_def shape_def rejected_all_def)
  moreover from sh have "waitTime (app st) = waitTime a" by (simp add: shape_def)
  ultimately show ?thesis using sleep hi by (simp add: hist_snoc)
next
  case wake
  with behind_stage1[OF li] li have "stage_ok a (trace st) SleepEnd"
    by (simp add: links_def)
  with wake hi show ?thesis by (simp add: hist_snoc)
next
  case (gostop i)
  with behind_stage2[OF li] li have "stage_ok a (trace st) (GoStop i)"
    by (simp add: links_def)
  with gostop hi show ?thesis by (simp add: hist_snoc)
next
  case (stopsdone i)
  with hi show ?thesis by simp
next
  case join1
  from acct_step[OF sh ac st] join1 have "\<forall>i<length (servers a). stops st ! i = Finished"
    by (simp add: acct_def)
  with li have "\<forall>i<length (servers a). \<exists>res. StopReturned i res \<in> set (trace st)"
    by (simp add: links_def)
  with join1 behind_stage2[OF li] li have "stage_ok a (trace st) StopsJoined"
    by (simp add: stopped_all_def links_def)
  with join1 hi show ?thesis by (simp add: hist_snoc)
next
  case (gocb j)
  with behind_stage3[OF ac li] li have "stage_ok a (trace st) (GoCallback j)"
    by (simp add: links_def)
  with gocb hi show ?thesis by (simp add: hist_snoc)
next
  case (cbsdone j)
  with hi show ?thesis by simp
next
  case join2
  from acct_step[OF sh ac st] join2 have "\<forall>j<length (cbs a). cbst st ! j = Finished"
    by (simp add: acct_def)
  with li have "\<forall>j<length (cbs a). CbReturned j \<in> set (trace st)"
    by (simp add: links_def)
  with join2 behind_stage3[OF ac li] li have "stage_ok a (trace st) CloseBegin"
    by (simp add: called_back_all_def links_def)
  with join2 hi show ?thesis by (simp add: hist_snoc)
next
  case closed
  with behind_stage4[OF ac li] li have "stage_ok a (trace st) CloseEnd"
    by (simp add: links_def)
  with closed hi show ?thesis by (simp add: hist_snoc)
next
  case (stopbegin i)
  with sh have i: "i < length (servers a)" by (simp add: shape_def)
  from stopbegin have u: "stops st ! i \<noteq> Unspawned" and f: "stops st ! i \<noteq> Finished"
    by simp_all
  from behind_stage2[OF li stop_running_rank[OF sh ac i u]]
    stop_unfinished_rank[OF ac i f] li i stopbegin
  have "stage_ok a (trace st) (StopCalled i)"
    by (simp add: links_def)
  with stopbegin hi show ?thesis by (simp add: hist_snoc)
next
  case (stopreturn i res)
  with sh have i: "i < length (servers a)" by (simp add: shape_def)
  from stopreturn have u: "stops st ! i \<noteq> Unspawned" and f: "stops st ! i \<noteq> Finished"
    by simp_all
  from behind_stage2[OF li stop_running_rank[OF sh ac i u]]
    stop_unfinished_rank[OF ac i f] li i stopreturn
  have "stage_ok a (trace st) (StopReturned i res)"
    by (simp add: links_def)
  with stopreturn hi show ?thesis by (simp add: hist_snoc)
next
  case (stoppanic i res)
  with sh have i: "i < length (servers a)" by (simp add: shape_def)
  from stoppanic have u: "stops st ! i \<noteq> Unspawned" and f: "stops st ! i \<noteq> Finished"
    by simp_all
  from behind_stage2[OF li stop_running_rank[OF sh ac i u]]
    stop_unfinished_rank[OF ac i f] li i stoppanic
  have "stage_ok a (trace st) (StopReturned i res)"
    by (simp add: links_def)
  with stoppanic hi show ?thesis by (simp add: hist_snoc2)
next
  case (cbbegin j)
  with sh have j: "j < length (cbs a)" by (simp add: shape_def)
  from cbbegin have u: "cbst st ! j \<noteq> Unspawned" and f: "cbst st ! j \<noteq> Finished"
    by simp_all
  from behind_stage3[OF ac li cb_running_rank[OF sh ac j u]]
    cb_unfinished_rank[OF ac j f] li j cbbegin sh
  have "stage_ok a (trace st) (CbCalled j (WithTimeout Background (cbTimeout (app st))))"
    by (simp add: links_def shape_def)
  with cbbegin hi show ?thesis by (simp add: hist_snoc)
next
  case (cbreturn j)
  with sh have j: "j < length (cbs a)" by (simp add: shape_def)
  from cbreturn have u: "cbst st ! j \<noteq> Unspawned" and f: "cbst st ! j \<noteq> Finished"
    by simp_all
  from behind_stage3[OF ac li cb_running_rank[OF sh ac j u]]
    cb_unfinished_rank[OF ac j f] li j cbreturn
  have "stage_ok a (trace st) (CbReturned j)"
    by (simp add: links_def)
  with cbreturn hi show ?thesis by (simp add: hist_snoc)
next
  case (cbdonepanic j)
  with sh have j: "j < length (cbs a)" by (simp add: shape_def)
  from cbdonepanic have u: "cbst st ! j \<noteq> Unspawned" and f: "cbst st ! j \<noteq> Finished"
    by simp_all
  from behind_stage3[OF ac li cb_running_rank[OF sh ac j u]]
    cb_unfinished_rank[OF ac j f] li j cbdonepanic
  have "stage_ok a (trace st) (CbReturned j)"
    by (simp add: links_def)
  with cbdonepanic hi show ?thesis by (simp add: hist_snoc2)
next
  case (cbpanic j)
  with sh have j: "j < length (cbs a)" by (simp add: shape_def)
  from cbpanic have u: "cbst st ! j \<noteq> Unspawned" and f: "cbst st ! j \<noteq> Finished"
    by simp_all
  from behind_stage3[OF ac li cb_running_rank[OF sh ac j u]]
    cb_unfinished_rank[OF ac j f] li j cbpanic
  have "stage_ok a (trace st) (CbPanicked j)"
    by (simp add: links_def)
  with cbpanic hi show ?thesis by (simp add: hist_snoc2)
next
  case (reqarrive i r)
  have "stage_ok a (trace st) (Served i r (ServeHTTP (mux (servers (app st) ! i)) newResponse r))"
  proof (simp, intro impI)
    assume "Rejected i \<in> set (trace st)"
    from Rejected_index[OF li this] li have "reject (mux (servers (app st) ! i))"
      by (simp add: links_def)
    then show "ServeHTTP (mux (servers (app st) ! i)) newResponse r = unavailable"
      by (rule unavailable_response)
  qed
  with reqarrive hi show ?thesis by (simp add: hist_snoc)
next
  case (reqdone i)
  with hi show ?thesis by (simp add: hist_snoc)
qed

lemma inv_init: "inv a (init a)"
  using shape_init[of a] acct_init[of a] links_init[of a]
  by (simp add: inv_def init_def hist_Nil)

lemma inv_step: "inv a st \<Longrightarrow> step x st = Some st' \<Longrightarrow> inv a st'"
  unfolding inv_def using shape_step acct_step links_step hist_step by blast

lemma inv_run: "inv a st \<Longrightarrow> run acts st = Some st' \<Longrightarrow> inv a st'"
proof (induction acts arbitrary: st)
  case Nil
  then show ?case by simp
next
  case (Cons x xs)
  then show ?case by (auto split: option.splits dest: inv_step)
qed

lemma reachable_inv: "run acts (init a) = Some st \<Longrightarrow> inv a st"
  using inv_run[OF inv_init] .

lemmas eval_defs = init_def NewApp_def WithShutdownCallbacks_def NewServer_def demo_server_def demo_mux_def
  step_def main_step_def emit_def logp_def os_Exit_def go_panic_def wg_Add1_def wg_Done_def
  upd_server_def Shutdown_returns_def ServeHTTP_def rejectReq_def Write_def WriteHeader_def
  newResponse_def StatusServiceUnavailable_def Second_def demo_app_def demo_app2_def
  demo_stop_sched_def demo_sched_def slow_sched_def cb_sched_def

lemma run_append:
  "run (xs @ ys) st = (case run xs st of None \<Rightarrow> None | Some st' \<Rightarrow> run ys st')"
  by (induction xs arbitrary: st) (auto split: option.splits)

lemma demo_final_trace:
  "map_option trace (run (demo_sched (Some ListenerCloseError)) (init demo_app)) =
   Some (demo_before_close @ [CloseBegin, CloseEnd])"
  by (simp add: eval_defs demo_before_close_def demo_before_sleep_def demo_rejected_def
        demo_drain_to_close_def)

lemma demo_run: "run (demo_sched (Some ListenerCloseError)) (init demo_app) = Some demo_final"
  using demo_final_trace by (auto simp: demo_final_def)

lemma demo_final_fields:
  "trace demo_final = demo_before_close @ [CloseBegin, CloseEnd]"
  using demo_final_trace by (auto simp: demo_final_def)

lemma reachable_hist:
  assumes "run acts (init a) = Some st" and "trace st = pre @ e # post"
  shows "stage_ok a pre e"
  using reachable_inv[OF assms(1)] assms(2) by (auto simp: inv_def hist_def)

lemma NewApp_callbacks_fields:
  "servers (NewApp svs (map WithShutdownCallbacks css)) = svs \<and>
   shutdownTimeout (NewApp svs (map WithShutdownCallbacks css)) = 30 * Second \<and>
   waitTime (NewApp svs (map WithShutdownCallbacks css)) = 10 * Second \<and>
   cbTimeout (NewApp svs (map WithShutdownCallbacks css)) = 3 * Second"
  by (induction css rule: rev_induct) (simp_all add: NewApp_def WithShutdownCallbacks_def)

lemma exited_stuck: "exited st \<noteq> None \<Longrightarrow> step y st = None"
  by (simp add: step_def)

lemma step_Signal_armed:
  "exited st = None \<Longrightarrow> pc st \<noteq> AwaitSignal \<Longrightarrow>
   step Signal st = Some (os_Exit 1 (logp LogSecondSignal st))"
  by (simp add: step_def)

lemma step_TimerFire_armed:
  "exited st = None \<Longrightarrow> pc st \<noteq> AwaitSignal \<Longrightarrow>
   step TimerFire st = Some (os_Exit 1 (logp LogDeadline st))"
  by (simp add: step_def)

lemma os_Exit_fields:
  "exited (os_Exit c (logp l st)) = Some c \<and> pc (os_Exit c (logp l st)) = pc st
   \<and> app (os_Exit c (logp l st)) = app st \<and> wg (os_Exit c (logp l st)) = wg st
   \<and> stops (os_Exit c (logp l st)) = stops st \<and> cbst (os_Exit c (logp l st)) = cbst st
   \<and> trace (os_Exit c (logp l st)) = trace st @ [Exited c]"
  by (simp add: os_Exit_def emit_def logp_def)

lemma unavailable_fields:
  "status unavailable = Some 503 \<and> body unavailable = unavailable_body
   \<and> length (body unavailable) = 15"
  by (simp add: unavailable_def unavailable_body_def)

lemma forget_results_fields:
  "app (forget_results st) = app st \<and> pc (forget_results st) = pc st
   \<and> wg (forget_results st) = wg st \<and> stops (forget_results st) = stops st
   \<and> cbst (forget_results st) = cbst st \<and> exited (forget_results st) = exited st
   \<and> logs (forget_results st) = logs st
   \<and> trace (forget_results st) = map nil_event (trace st)"
  by (simp add: forget_results_def)

lemma forget_results_init: "forget_results (init a) = init a"
  by (simp add: forget_results_def init_def)

lemma step_nil:
  assumes "step x st = Some st'"
  shows "step (nil_result x) (forget_results st) = Some (forget_results st')"
proof -
  have alive: "exited st = None" using step_alive[OF assms] .
  from assms show ?thesis
  proof (cases rule: stepE)
    case (stopreturn i res)
    with alive show ?thesis
      by (simp add: step_def forget_results_def Shutdown_returns_def wg_Done_def emit_def)
  next
    case (stoppanic i res)
    with alive show ?thesis
      by (simp add: step_def forget_results_def Shutdown_returns_def wg_Done_def emit_def
            go_panic_def os_Exit_def)
  next
    case (cbreturn j)
    with alive show ?thesis
      by (simp add: step_def forget_results_def wg_Done_def emit_def)
  next
    case (cbdonepanic j)
    with alive show ?thesis
      by (simp add: step_def forget_results_def wg_Done_def emit_def go_panic_def os_Exit_def)
  qed (simp_all add: alive step_def main_step_def forget_results_def emit_def logp_def
         os_Exit_def go_panic_def wg_Add1_def)
qed

lemma run_nil:
  "run acts st = Some st' \<Longrightarrow>
   run (map nil_result acts) (forget_results st) = Some (forget_results st')"
proof (induction acts arbitrary: st)
  case Nil
  then show ?case by simp
next
  case (Cons x xs)
  from Cons.prems obtain s1 where s1: "step x st = Some s1" and r: "run xs s1 = Some st'"
    by (auto split: option.splits)
  from step_nil[OF s1] Cons.IH[OF r] show ?case by simp
qed

lemma all_finished_inactive:
  "\<forall>i<length xs. xs ! i = Finished \<Longrightarrow> filter active xs = []"
  by (auto simp: filter_empty_conv in_set_conv_nth)

lemma all_unspawned_inactive:
  "\<forall>i<length xs. xs ! i = Unspawned \<Longrightarrow> filter active xs = []"
  by (auto simp: filter_empty_conv in_set_conv_nth)

lemma some_active: "filter P xs \<noteq> [] \<Longrightarrow> \<exists>i<length xs. P (xs ! i)"
  by (auto simp: filter_empty_conv in_set_conv_nth)

lemma main_blocked_wg:
  "exited st = None \<Longrightarrow> step Main st = None \<Longrightarrow>
   pc st = AwaitSignal \<or> pc st = Returned
   \<or> (pc st = WaitStopped \<and> wg st \<noteq> 0) \<or> (pc st = WaitCallbacks \<and> wg st \<noteq> 0)"
  by (cases "pc st") (auto simp: step_def main_step_def split: if_splits)

lemma main_blocked:
  assumes i: "inv a st" and alive: "exited st = None" and blocked: "step Main st = None"
  shows "pc st = AwaitSignal \<or> pc st = Returned
       \<or> (pc st = WaitStopped \<and> (\<exists>i<length (servers a). active (stops st ! i)))
       \<or> (pc st = WaitCallbacks \<and> (\<exists>j<length (cbs a). active (cbst st ! j)))"
proof -
  consider "pc st = AwaitSignal \<or> pc st = Returned"
    | "pc st = WaitStopped" "wg st \<noteq> 0" | "pc st = WaitCallbacks" "wg st \<noteq> 0"
    using main_blocked_wg[OF alive blocked] by blast
  then show ?thesis
  proof cases
    case 1
    then show ?thesis by blast
  next
    case 2
    with i have "\<forall>j<length (cbst st). cbst st ! j = Unspawned"
      by (simp add: inv_def acct_def shape_def)
    from all_unspawned_inactive[OF this] 2 i have "filter active (stops st) \<noteq> []"
      by (auto simp: inv_def acct_def)
    from some_active[OF this] i 2 show ?thesis
      by (simp add: inv_def shape_def)
  next
    case 3
    with i have "\<forall>i<length (stops st). stops st ! i = Finished"
      by (simp add: inv_def acct_def shape_def)
    from all_finished_inactive[OF this] 3 i have "filter active (cbst st) \<noteq> []"
      by (auto simp: inv_def acct_def)
    from some_active[OF this] i 3 show ?thesis
      by (simp add: inv_def shape_def)
  qed
qed

lemma inactive_all_finished:
  assumes "filter active xs = []" and "\<forall>k<length xs. xs ! k \<noteq> Unspawned"
  shows "\<forall>k<length xs. xs ! k = Finished"
proof (intro allI impI)
  fix k assume k: "k < length xs"
  with assms(1) have "\<not> active (xs ! k)"
    by (auto simp: filter_empty_conv)
  with assms(2) k show "xs ! k = Finished"
    using not_active_cases by blast
qed

lemma barrier_open:
  assumes i: "inv a st" and p: "pc st = WaitCallbacks"
  shows "(wg st = 0) = (\<forall>k<length (cbs a). cbst st ! k = Finished)"
proof -
  from i p have fin: "\<forall>i<length (stops st). stops st ! i = Finished"
    and len: "length (cbst st) = length (cbs a)"
    and spawned: "\<forall>k<length (cbst st). cbst st ! k \<noteq> Unspawned"
    and w: "wg st = int (length (filter active (stops st))) +
                int (length (filter active (cbst st)))"
    by (simp_all add: inv_def acct_def shape_def)
  from all_finished_inactive[OF fin] w
  have w': "(wg st = 0) = (filter active (cbst st) = [])" by simp
  show ?thesis
  proof
    assume "wg st = 0"
    with w' have "filter active (cbst st) = []" by simp
    from inactive_all_finished[OF this spawned] len
    show "\<forall>k<length (cbs a). cbst st ! k = Finished" by simp
  next
    assume "\<forall>k<length (cbs a). cbst st ! k = Finished"
    with len have "\<forall>k<length (cbst st). cbst st ! k = Finished" by simp
    from all_finished_inactive[OF this] w' show "wg st = 0" by simp
  qed
qed

lemma at_init:
  "\<forall>i<length (servers a). inflight (srv (servers a ! i)) = 0 \<Longrightarrow>
   at a (init a) AwaitSignal (\<lambda>_. Unspawned) (\<lambda>_. Unspawned)"
  using inv_init[of a] by (simp add: at_def init_def)

lemma at_lengths:
  "at a st p f g \<Longrightarrow>
   length (servers (app st)) = length (servers a) \<and> cbs (app st) = cbs a \<and>
   length (stops st) = length (servers a) \<and> length (cbst st) = length (cbs a)"
  by (simp add: at_def inv_def shape_def)

lemma at_step:
  assumes "at a st p f g" and "step x st = Some st'" and "pc st' = p'" and "exited st' = None"
    and "\<forall>i<length (servers a). stops st' ! i = f' i"
    and "\<forall>j<length (cbs a). cbst st' ! j = g' j"
    and "\<forall>i<length (servers a). inflight (srv (servers (app st') ! i)) = 0"
  shows "at a st' p' f' g'"
  using assms inv_step[of a st x st'] by (simp add: at_def)

lemma step_trigger:
  assumes "at a st AwaitSignal f g"
  shows "\<exists>st'. step Signal st = Some st' \<and> at a st' (Rejecting 0) f g"
proof -
  let ?st' = "logp LogShutdownBegin (emit Triggered (st\<lparr>pc := Rejecting 0\<rparr>))"
  from assms have s: "step Signal st = Some ?st'" by (simp add: at_def step_def)
  from assms have "at a ?st' (Rejecting 0) f g"
    by (intro at_step[OF assms s]) (simp_all add: at_def logp_def emit_def)
  with s show ?thesis by blast
qed

lemma step_reject:
  assumes "at a st (Rejecting i) f g" and "i < length (servers a)"
  shows "\<exists>st'. step Main st = Some st' \<and> at a st' (Rejecting (Suc i)) f g"
proof -
  let ?st' = "logp (LogServerRejected (name (servers (app st) ! i)))
                 (emit (Rejected i)
                   (st\<lparr>app := upd_server i rejectReq (app st), pc := Rejecting (Suc i)\<rparr>))"
  from assms at_lengths[OF assms(1)] have s: "step Main st = Some ?st'"
    by (simp add: at_def step_def main_step_def)
  from assms at_lengths[OF assms(1)] have "at a ?st' (Rejecting (Suc i)) f g"
    by (intro at_step[OF assms(1) s])
       (auto simp: at_def logp_def emit_def upd_server_def rejectReq_def nth_list_update)
  with s show ?thesis by blast
qed

lemma run_reject:
  "at a st (Rejecting i) f g \<Longrightarrow> i + k = length (servers a) \<Longrightarrow>
   \<exists>st'. run (replicate k Main) st = Some st' \<and> at a st' (Rejecting (length (servers a))) f g"
proof (induction k arbitrary: i st)
  case 0
  then show ?case by simp
next
  case (Suc k)
  from Suc.prems have "i < length (servers a)" by simp
  from step_reject[OF Suc.prems(1) this] obtain s1
    where s1: "step Main st = Some s1" "at a s1 (Rejecting (Suc i)) f g" by blast
  from Suc.prems have "Suc i + k = length (servers a)" by simp
  from Suc.IH[OF s1(2) this] s1(1) show ?case by simp
qed

lemma step_sleep:
  assumes "at a st (Rejecting (length (servers a))) f g"
  shows "\<exists>st'. step Main st = Some st' \<and> at a st' Draining f g"
proof -
  let ?st' = "emit (SleepBegin (waitTime (app st))) (logp LogWaitRequests (st\<lparr>pc := Draining\<rparr>))"
  from assms at_lengths[OF assms] have s: "step Main st = Some ?st'"
    by (simp add: at_def step_def main_step_def)
  from assms have "at a ?st' Draining f g"
    by (intro at_step[OF assms s]) (simp_all add: at_def logp_def emit_def)
  with s show ?thesis by blast
qed

lemma step_wake:
  assumes "at a st Draining f g"
  shows "\<exists>st'. step Main st = Some st' \<and> at a st' (StoppingServers 0) f g"
proof -
  let ?st' = "logp LogStoppingServers (emit SleepEnd (st\<lparr>pc := StoppingServers 0\<rparr>))"
  from assms have s: "step Main st = Some ?st'"
    by (simp add: at_def step_def main_step_def)
  from assms have "at a ?st' (StoppingServers 0) f g"
    by (intro at_step[OF assms s]) (simp_all add: at_def logp_def emit_def)
  with s show ?thesis by blast
qed

lemma step_gostop:
  assumes "at a st (StoppingServers i) f g" and "i < length (servers a)"
  shows "\<exists>st'. step Main st = Some st' \<and> at a st' (StoppingServers (Suc i)) (f(i := Spawned)) g"
proof -
  let ?st' = "emit (GoStop i)
                 (wg_Add1 (st\<lparr>stops := (stops st)[i := Spawned],
                               pc := StoppingServers (Suc i)\<rparr>))"
  from assms at_lengths[OF assms(1)] have s: "step Main st = Some ?st'"
    by (simp add: at_def step_def main_step_def)
  from assms at_lengths[OF assms(1)] have "at a ?st' (StoppingServers (Suc i)) (f(i := Spawned)) g"
    by (intro at_step[OF assms(1) s])
       (auto simp: at_def emit_def wg_Add1_def nth_list_update)
  with s show ?thesis by blast
qed

lemma run_gostop:
  "at a st (StoppingServers i) (\<lambda>j. if j < i then Spawned else Unspawned) g \<Longrightarrow>
   i + k = length (servers a) \<Longrightarrow>
   \<exists>st'. run (replicate k Main) st = Some st' \<and>
         at a st' (StoppingServers (length (servers a))) (\<lambda>j. Spawned) g"
proof (induction k arbitrary: i st)
  case 0
  then have "at a st (StoppingServers (length (servers a))) (\<lambda>j. Spawned) g"
    by (simp add: at_def)
  then show ?case by simp
next
  case (Suc k)
  from Suc.prems have "i < length (servers a)" by simp
  from step_gostop[OF Suc.prems(1) this] obtain s1
    where s1: "step Main st = Some s1"
      "at a s1 (StoppingServers (Suc i)) ((\<lambda>j. if j < i then Spawned else Unspawned)(i := Spawned)) g"
    by blast
  have "(\<lambda>j. if j < i then Spawned else Unspawned)(i := Spawned) =
        (\<lambda>j. if j < Suc i then Spawned else Unspawned)"
    by (auto simp: fun_eq_iff)
  with s1(2) have a1: "at a s1 (StoppingServers (Suc i)) (\<lambda>j. if j < Suc i then Spawned else Unspawned) g"
    by simp
  from Suc.prems have "Suc i + k = length (servers a)" by simp
  from Suc.IH[OF a1 this] s1(1) show ?case by simp
qed

lemma step_stopsdone:
  assumes "at a st (StoppingServers (length (servers a))) f g"
  shows "\<exists>st'. step Main st = Some st' \<and> at a st' WaitStopped f g"
proof -
  let ?st' = "st\<lparr>pc := WaitStopped\<rparr>"
  from assms at_lengths[OF assms] have s: "step Main st = Some ?st'"
    by (simp add: at_def step_def main_step_def)
  from assms have "at a ?st' WaitStopped f g"
    by (intro at_step[OF assms s]) (simp_all add: at_def)
  with s show ?thesis by blast
qed

lemma step_stop_goroutine:
  assumes "at a st p f g" and "i < length (servers a)" and "f i = Spawned"
    and "r \<noteq> Some DeadlineExceeded"
  shows "\<exists>st'. run [StopBegin i, StopReturn i r] st = Some st' \<and> at a st' p (f(i := Finished)) g"
proof -
  let ?s1 = "emit (StopCalled i)
                 (logp (LogServerStopping (name (servers (app st) ! i)))
                   (st\<lparr>stops := (stops st)[i := Running],
                       app := upd_server i (\<lambda>s. s\<lparr>srv := (srv s)\<lparr>inShutdown := True\<rparr>\<rparr>)
                                (app st)\<rparr>))"
  from assms at_lengths[OF assms(1)] have s1: "step (StopBegin i) st = Some ?s1"
    by (simp add: at_def step_def)
  from assms at_lengths[OF assms(1)] have a1: "at a ?s1 p (f(i := Running)) g"
    by (intro at_step[OF assms(1) s1])
       (auto simp: at_def logp_def emit_def upd_server_def nth_list_update)
  from at_lengths[OF a1] assms(2) have len: "i < length (stops ?s1)" by simp
  from a1 assms(2) have run: "stops ?s1 ! i = Running" by (simp add: at_def)
  from active_pos[OF len, of active] run
  have "0 < length (filter active (stops ?s1))" by simp
  then have "1 \<le> int (length (filter active (stops ?s1))) +
      int (length (filter active (cbst ?s1)))"
    by linarith
  moreover from a1 have "wg ?s1 = int (length (filter active (stops ?s1))) +
      int (length (filter active (cbst ?s1)))"
    by (simp add: at_def inv_def acct_def)
  ultimately have w: "1 \<le> wg ?s1" by simp
  let ?s2 = "(emit (StopReturned i r) (?s1\<lparr>stops := (stops ?s1)[i := Finished]\<rparr>))
               \<lparr>wg := wg ?s1 - 1\<rparr>"
  from a1 at_lengths[OF a1] assms(2,4) run w have s2: "step (StopReturn i r) ?s1 = Some ?s2"
    by (simp add: at_def step_def Shutdown_returns_def wg_Done_def emit_def)
  from a1 at_lengths[OF a1] assms(2) have "at a ?s2 p (f(i := Finished)) g"
    by (intro at_step[OF a1 s2]) (auto simp: at_def emit_def nth_list_update)
  with s1 s2 show ?thesis by simp
qed

lemma run_seq: "run xs st = Some s1 \<Longrightarrow> run ys s1 = Some s2 \<Longrightarrow> run (xs @ ys) st = Some s2"
  by (simp add: run_append)

lemma upt_step: "[i..<i + Suc k] = i # [Suc i..<Suc i + k]"
  by (simp add: upt_rec)

lemma run_stop_goroutines:
  "at a st p (\<lambda>j. if j < i then Finished else Spawned) g \<Longrightarrow>
   i + k = length (servers a) \<Longrightarrow> \<forall>j<length (servers a). rs j \<noteq> Some DeadlineExceeded \<Longrightarrow>
   \<exists>st'. run (stop_actions rs i k) st = Some st' \<and> at a st' p (\<lambda>j. Finished) g"
proof (induction k arbitrary: i st)
  case 0
  then have "at a st p (\<lambda>j. Finished) g" by (simp add: at_def)
  then show ?case by (simp add: stop_actions_def)
next
  case (Suc k)
  from Suc.prems have i: "i < length (servers a)" by simp
  with Suc.prems(3) have r: "rs i \<noteq> Some DeadlineExceeded" by simp
  from step_stop_goroutine[OF Suc.prems(1) i _ r] obtain s1
    where s1: "run [StopBegin i, StopReturn i (rs i)] st = Some s1"
      "at a s1 p ((\<lambda>j. if j < i then Finished else Spawned)(i := Finished)) g"
    by auto
  have "(\<lambda>j. if j < i then Finished else Spawned)(i := Finished) =
        (\<lambda>j. if j < Suc i then Finished else Spawned)"
    by (auto simp: fun_eq_iff)
  with s1(2) have a1: "at a s1 p (\<lambda>j. if j < Suc i then Finished else Spawned) g" by simp
  from Suc.prems have "Suc i + k = length (servers a)" by simp
  from Suc.IH[OF a1 this Suc.prems(3)] obtain s2
    where s2: "run (stop_actions rs (Suc i) k) s1 = Some s2" "at a s2 p (\<lambda>j. Finished) g"
    by blast
  have "stop_actions rs i (Suc k) =
        [StopBegin i, StopReturn i (rs i)] @ stop_actions rs (Suc i) k"
    unfolding stop_actions_def upt_step by simp
  with run_seq[OF s1(1) s2(1)] s2(2) show ?case by metis
qed

lemma at_wg_zero:
  assumes "at a st p f g" and "\<forall>i<length (servers a). \<not> active (f i)"
    and "\<forall>j<length (cbs a). \<not> active (g j)"
  shows "wg st = 0"
proof -
  from assms(1,2) at_lengths[OF assms(1)] have "filter active (stops st) = []"
    by (auto simp: at_def filter_empty_conv in_set_conv_nth)
  moreover from assms(1,3) at_lengths[OF assms(1)] have "filter active (cbst st) = []"
    by (auto simp: at_def filter_empty_conv in_set_conv_nth)
  moreover from assms(1) have "wg st = int (length (filter active (stops st))) +
      int (length (filter active (cbst st)))"
    by (simp add: at_def inv_def acct_def)
  ultimately show ?thesis by simp
qed

lemma step_join1:
  assumes "at a st WaitStopped (\<lambda>j. Finished) (\<lambda>j. Unspawned)"
  shows "\<exists>st'. step Main st = Some st' \<and>
           at a st' (RunningCallbacks 0) (\<lambda>j. Finished) (\<lambda>j. Unspawned)"
proof -
  let ?st' = "logp LogRunCallbacks (emit StopsJoined (st\<lparr>pc := RunningCallbacks 0\<rparr>))"
  have "wg st = 0" using at_wg_zero[OF assms] by simp
  with assms have s: "step Main st = Some ?st'"
    by (simp add: at_def step_def main_step_def)
  from assms have "at a ?st' (RunningCallbacks 0) (\<lambda>j. Finished) (\<lambda>j. Unspawned)"
    by (intro at_step[OF assms s]) (simp_all add: at_def logp_def emit_def)
  with s show ?thesis by blast
qed

lemma step_gocb:
  assumes "at a st (RunningCallbacks j) f g" and "j < length (cbs a)"
  shows "\<exists>st'. step Main st = Some st' \<and> at a st' (RunningCallbacks (Suc j)) f (g(j := Spawned))"
proof -
  let ?st' = "emit (GoCallback j)
                 (wg_Add1 (st\<lparr>cbst := (cbst st)[j := Spawned],
                               pc := RunningCallbacks (Suc j)\<rparr>))"
  from assms at_lengths[OF assms(1)] have s: "step Main st = Some ?st'"
    by (simp add: at_def step_def main_step_def)
  from assms at_lengths[OF assms(1)]
  have "at a ?st' (RunningCallbacks (Suc j)) f (g(j := Spawned))"
    by (intro at_step[OF assms(1) s])
       (auto simp: at_def emit_def wg_Add1_def nth_list_update)
  with s show ?thesis by blast
qed

lemma run_gocb:
  "at a st (RunningCallbacks j) f (\<lambda>i. if i < j then Spawned else Unspawned) \<Longrightarrow>
   j + k = length (cbs a) \<Longrightarrow>
   \<exists>st'. run (replicate k Main) st = Some st' \<and>
         at a st' (RunningCallbacks (length (cbs a))) f (\<lambda>i. Spawned)"
proof (induction k arbitrary: j st)
  case 0
  then have "at a st (RunningCallbacks (length (cbs a))) f (\<lambda>i. Spawned)"
    by (simp add: at_def)
  then show ?case by simp
next
  case (Suc k)
  from Suc.prems have "j < length (cbs a)" by simp
  from step_gocb[OF Suc.prems(1) this] obtain s1
    where s1: "step Main st = Some s1"
      "at a s1 (RunningCallbacks (Suc j)) f
         ((\<lambda>i. if i < j then Spawned else Unspawned)(j := Spawned))"
    by blast
  have "(\<lambda>i. if i < j then Spawned else Unspawned)(j := Spawned) =
        (\<lambda>i. if i < Suc j then Spawned else Unspawned)"
    by (auto simp: fun_eq_iff)
  with s1(2)
  have a1: "at a s1 (RunningCallbacks (Suc j)) f (\<lambda>i. if i < Suc j then Spawned else Unspawned)"
    by simp
  from Suc.prems have "Suc j + k = length (cbs a)" by simp
  from Suc.IH[OF a1 this] s1(1) show ?case by simp
qed

lemma step_cbsdone:
  assumes "at a st (RunningCallbacks (length (cbs a))) f g"
  shows "\<exists>st'. step Main st = Some st' \<and> at a st' WaitCallbacks f g"
proof -
  let ?st' = "st\<lparr>pc := WaitCallbacks\<rparr>"
  from assms at_lengths[OF assms] have s: "step Main st = Some ?st'"
    by (simp add: at_def step_def main_step_def)
  from assms have "at a ?st' WaitCallbacks f g"
    by (intro at_step[OF assms s]) (simp_all add: at_def)
  with s show ?thesis by blast
qed

lemma step_cb_goroutine:
  assumes "at a st p f g" and "j < length (cbs a)" and "g j = Spawned"
  shows "\<exists>st'. run [CbBegin j, CbReturn j] st = Some st' \<and> at a st' p f (g(j := Finished))"
proof -
  let ?s1 = "emit (CbCalled j (WithTimeout Background (cbTimeout (app st))))
                 (st\<lparr>cbst := (cbst st)[j := Running]\<rparr>)"
  from assms at_lengths[OF assms(1)] have s1: "step (CbBegin j) st = Some ?s1"
    by (simp add: at_def step_def)
  from assms at_lengths[OF assms(1)] have a1: "at a ?s1 p f (g(j := Running))"
    by (intro at_step[OF assms(1) s1]) (auto simp: at_def emit_def nth_list_update)
  from at_lengths[OF a1] assms(2) have len: "j < length (cbst ?s1)" by simp
  from a1 assms(2) have run: "cbst ?s1 ! j = Running" by (simp add: at_def)
  from active_pos[OF len, of active] run
  have "0 < length (filter active (cbst ?s1))" by simp
  then have "1 \<le> int (length (filter active (stops ?s1))) +
      int (length (filter active (cbst ?s1)))"
    by linarith
  moreover from a1 have "wg ?s1 = int (length (filter active (stops ?s1))) +
      int (length (filter active (cbst ?s1)))"
    by (simp add: at_def inv_def acct_def)
  ultimately have w: "1 \<le> wg ?s1" by simp
  let ?s2 = "(emit (CbReturned j) (?s1\<lparr>cbst := (cbst ?s1)[j := Finished]\<rparr>))
               \<lparr>wg := wg ?s1 - 1\<rparr>"
  from a1 at_lengths[OF a1] assms(2) run w have s2: "step (CbReturn j) ?s1 = Some ?s2"
    by (simp add: at_def step_def wg_Done_def emit_def)
  from a1 at_lengths[OF a1] assms(2) have "at a ?s2 p f (g(j := Finished))"
    by (intro at_step[OF a1 s2]) (auto simp: at_def emit_def nth_list_update)
  with s1 s2 show ?thesis by simp
qed

lemma run_cb_goroutines:
  "at a st p f (\<lambda>i. if i < j then Finished else Spawned) \<Longrightarrow>
   j + k = length (cbs a) \<Longrightarrow>
   \<exists>st'. run (cb_actions j k) st = Some st' \<and> at a st' p f (\<lambda>i. Finished)"
proof (induction k arbitrary: j st)
  case 0
  then have "at a st p f (\<lambda>i. Finished)" by (simp add: at_def)
  then show ?case by (simp add: cb_actions_def)
next
  case (Suc k)
  from Suc.prems have j: "j < length (cbs a)" by simp
  from step_cb_goroutine[OF Suc.prems(1) j] obtain s1
    where s1: "run [CbBegin j, CbReturn j] st = Some s1"
      "at a s1 p f ((\<lambda>i. if i < j then Finished else Spawned)(j := Finished))"
    by auto
  have "(\<lambda>i. if i < j then Finished else Spawned)(j := Finished) =
        (\<lambda>i. if i < Suc j then Finished else Spawned)"
    by (auto simp: fun_eq_iff)
  with s1(2) have a1: "at a s1 p f (\<lambda>i. if i < Suc j then Finished else Spawned)" by simp
  from Suc.prems have "Suc j + k = length (cbs a)" by simp
  from Suc.IH[OF a1 this] obtain s2
    where s2: "run (cb_actions (Suc j) k) s1 = Some s2" "at a s2 p f (\<lambda>i. Finished)"
    by blast
  have "cb_actions j (Suc k) = [CbBegin j, CbReturn j] @ cb_actions (Suc j) k"
    unfolding cb_actions_def upt_step by simp
  with run_seq[OF s1(1) s2(1)] s2(2) show ?case by metis
qed

lemma run_release:
  assumes "at a st WaitCallbacks (\<lambda>j. Finished) (\<lambda>j. Finished)"
  shows "\<exists>st'. run [Main, Main] st = Some st' \<and> pc st' = Returned \<and> exited st' = None
           \<and> logs st' = logs st @ [LogRelease, LogAppClosed]
           \<and> trace st' = trace st @ [CloseBegin, CloseEnd]"
proof -
  have "wg st = 0" using at_wg_zero[OF assms] by simp
  with assms show ?thesis
    by (simp add: at_def step_def main_step_def emit_def logp_def)
qed

lemma run_single: "step x st = Some st' \<Longrightarrow> run [x] st = Some st'"
  by simp

lemma run_all_stages:
  assumes idle: "\<forall>i<length (servers a). inflight (srv (servers a ! i)) = 0"
    and ok: "\<forall>i<length (servers a). rs i \<noteq> Some DeadlineExceeded"
  shows "\<exists>st. run (full_sched (length (servers a)) (length (cbs a)) rs) (init a) = Some st
           \<and> pc st = Returned \<and> exited st = None"
proof -
  let ?n = "length (servers a)" and ?m = "length (cbs a)"
  let ?U = "\<lambda>j::nat. Unspawned" and ?S = "\<lambda>j::nat. Spawned" and ?F = "\<lambda>j::nat. Finished"
  from step_trigger[OF at_init[OF idle]] obtain s1
    where s1: "run [Signal] (init a) = Some s1" "at a s1 (Rejecting 0) ?U ?U"
    by (auto dest: run_single)
  from run_reject[OF s1(2), of ?n] obtain s2
    where s2: "run (replicate ?n Main) s1 = Some s2" "at a s2 (Rejecting ?n) ?U ?U"
    by auto
  from step_sleep[OF s2(2)] obtain s3
    where s3: "step Main s2 = Some s3" "at a s3 Draining ?U ?U" by blast
  from step_wake[OF s3(2)] obtain s4
    where s4: "step Main s3 = Some s4" "at a s4 (StoppingServers 0) ?U ?U" by blast
  from s3(1) s4(1) have r4: "run [Main, Main] s2 = Some s4" by simp
  from s4(2) have "at a s4 (StoppingServers 0) (\<lambda>j. if j < 0 then Spawned else Unspawned) ?U"
    by simp
  from run_gostop[OF this, of ?n] obtain s5
    where s5: "run (replicate ?n Main) s4 = Some s5" "at a s5 (StoppingServers ?n) ?S ?U"
    by auto
  from step_stopsdone[OF s5(2)] obtain s6
    where s6: "run [Main] s5 = Some s6" "at a s6 WaitStopped ?S ?U"
    by (auto dest: run_single)
  from s6(2) have "at a s6 WaitStopped (\<lambda>j. if j < 0 then Finished else Spawned) ?U"
    by simp
  from run_stop_goroutines[OF this _ ok, of ?n] obtain s7
    where s7: "run (stop_actions rs 0 ?n) s6 = Some s7" "at a s7 WaitStopped ?F ?U"
    by auto
  from step_join1[OF s7(2)] obtain s8
    where s8: "run [Main] s7 = Some s8" "at a s8 (RunningCallbacks 0) ?F ?U"
    by (auto dest: run_single)
  from s8(2) have "at a s8 (RunningCallbacks 0) ?F (\<lambda>i. if i < 0 then Spawned else Unspawned)"
    by simp
  from run_gocb[OF this, of ?m] obtain s9
    where s9: "run (replicate ?m Main) s8 = Some s9" "at a s9 (RunningCallbacks ?m) ?F ?S"
    by auto
  from step_cbsdone[OF s9(2)] obtain s10
    where s10: "run [Main] s9 = Some s10" "at a s10 WaitCallbacks ?F ?S"
    by (auto dest: run_single)
  from s10(2) have "at a s10 WaitCallbacks ?F (\<lambda>i. if i < 0 then Finished else Spawned)"
    by simp
  from run_cb_goroutines[OF this, of ?m] obtain s11
    where s11: "run (cb_actions 0 ?m) s10 = Some s11" "at a s11 WaitCallbacks ?F ?F"
    by auto
  from run_release[OF s11(2)] obtain s12
    where s12: "run [Main, Main] s11 = Some s12" "pc s12 = Returned" "exited s12 = None"
    by blast
  note run_seq[OF s1(1) run_seq[OF s2(1) run_seq[OF r4 run_seq[OF s5(1) run_seq[OF s6(1)
    run_seq[OF s7(1) run_seq[OF s8(1) run_seq[OF s9(1) run_seq[OF s10(1)
    run_seq[OF s11(1) s12(1)]]]]]]]]]]
  then have "run (full_sched ?n ?m rs) (init a) = Some s12"
    by (simp add: full_sched_def)
  with s12(2,3) show ?thesis by blast
qed

lemma returned_all_stages:
  assumes "inv a st" and "pc st = Returned"
  shows "filter is_Rejected (trace st) = map Rejected [0..<length (servers a)]
       \<and> SleepBegin (waitTime a) \<in> set (trace st) \<and> SleepEnd \<in> set (trace st)
       \<and> (\<forall>i<length (servers a). \<exists>res. StopReturned i res \<in> set (trace st))
       \<and> (\<forall>j<length (cbs a). CbReturned j \<in> set (trace st))
       \<and> CloseBegin \<in> set (trace st) \<and> CloseEnd \<in> set (trace st)"
  using assms by (simp add: inv_def links_def acct_def)

section \<open>The claims\<close>

text \<open>
  Claim C1. In every execution, whatever the number of servers and of callbacks, the five
  stages run in strict order with a barrier between consecutive stages. For every event
  of every reachable trace, with \<open>pre\<close> the events before it:
  \<^item> \<open>rejectReq\<close> is called on server \<open>i\<close> after the signal, after exactly the servers
    before \<open>i\<close> in the registry, and before the drain sleep begins;
  \<^item> the drain sleep begins once, with the duration \<open>app.waitTime\<close>, after \<open>rejectReq\<close>
    has been called on every server in registry order, and all flags are set from then on;
  \<^item> a \<open>stop\<close> goroutine is started, calls \<open>stop()\<close>, and returns from it, only after
    the sleep has ended, and the \<open>wg.Wait()\<close> of line 137 returns only after every
    server's \<open>stop()\<close> has returned;
  \<^item> a callback's goroutine is started, calls the callback, and the callback returns or
    panics, only after that \<open>wg.Wait()\<close> has returned, hence after every \<open>stop()\<close>;
  \<^item> \<open>app.close()\<close> begins only after every callback has returned, and after all of
    the above even when there is no server or no callback; it ends after it began.

  No event of a stage comes after the barrier that ends the stage: no \<open>rejectReq\<close>
  after the sleep has begun, no step of a \<open>stop\<close> goroutine after the \<open>wg.Wait()\<close> of
  line 137 has returned, no step of a callback after \<open>app.close()\<close> has begun; the
  sleep and the two barriers happen once.
\<close>

theorem shutdown_stage_order:
  assumes "run acts (init a) = Some st" and "trace st = pre @ e # post"
  shows "(\<forall>i. e = Rejected i \<longrightarrow>
            Triggered \<in> set pre \<and> i < length (servers a) \<and>
            filter is_Rejected pre = map Rejected [0..<i] \<and>
            SleepBegin (waitTime a) \<notin> set pre)
       \<and> (\<forall>d. e = SleepBegin d \<longrightarrow>
            d = waitTime a \<and> rejected_all a pre \<and> SleepBegin d \<notin> set pre \<and>
            filter is_Rejected pre = map Rejected [0..<length (servers a)])
       \<and> (e = SleepEnd \<longrightarrow>
            rejected_all a pre \<and> SleepBegin (waitTime a) \<in> set pre \<and> SleepEnd \<notin> set pre)
       \<and> (\<forall>i. e = GoStop i \<longrightarrow>
            drained a pre \<and> SleepEnd \<in> set pre \<and> StopsJoined \<notin> set pre)
       \<and> (\<forall>i. e = StopCalled i \<longrightarrow>
            drained a pre \<and> SleepEnd \<in> set pre \<and> GoStop i \<in> set pre \<and>
            StopsJoined \<notin> set pre)
       \<and> (\<forall>i res. e = StopReturned i res \<longrightarrow>
            drained a pre \<and> StopCalled i \<in> set pre \<and> StopsJoined \<notin> set pre)
       \<and> (e = StopsJoined \<longrightarrow>
            stopped_all a pre \<and> SleepEnd \<in> set pre \<and> StopsJoined \<notin> set pre \<and>
            (\<forall>i<length (servers a). \<exists>res. StopReturned i res \<in> set pre))
       \<and> (\<forall>j. e = GoCallback j \<longrightarrow>
            stopped_all a pre \<and> StopsJoined \<in> set pre \<and> SleepEnd \<in> set pre \<and>
            CloseBegin \<notin> set pre \<and>
            (\<forall>i<length (servers a). \<exists>res. StopReturned i res \<in> set pre))
       \<and> (\<forall>j c. e = CbCalled j c \<longrightarrow>
            c = WithTimeout Background (cbTimeout a) \<and>
            stopped_all a pre \<and> StopsJoined \<in> set pre \<and> SleepEnd \<in> set pre \<and>
            GoCallback j \<in> set pre \<and> CloseBegin \<notin> set pre \<and>
            (\<forall>i<length (servers a). \<exists>res. StopReturned i res \<in> set pre))
       \<and> (\<forall>j. e = CbReturned j \<or> e = CbPanicked j \<longrightarrow>
            stopped_all a pre \<and> StopsJoined \<in> set pre \<and>
            CbCalled j (WithTimeout Background (cbTimeout a)) \<in> set pre \<and>
            CloseBegin \<notin> set pre)
       \<and> (e = CloseBegin \<longrightarrow>
            called_back_all a pre \<and> StopsJoined \<in> set pre \<and> SleepEnd \<in> set pre \<and>
            CloseBegin \<notin> set pre \<and>
            (\<forall>i<length (servers a). \<exists>res. StopReturned i res \<in> set pre) \<and>
            (\<forall>j<length (cbs a). CbReturned j \<in> set pre))
       \<and> (e = CloseEnd \<longrightarrow>
            called_back_all a pre \<and> CloseBegin \<in> set pre \<and> CloseEnd \<notin> set pre)
       \<and> (SleepBegin (waitTime a) \<in> set (trace st) \<longrightarrow>
            (\<forall>i<length (servers a). reject (mux (servers (app st) ! i))))"
proof -
  have ok: "stage_ok a pre e" using reachable_hist[OF assms] .
  have flags: "SleepBegin (waitTime a) \<in> set (trace st) \<longrightarrow>
            (\<forall>i<length (servers a). reject (mux (servers (app st) ! i)))"
  proof
    assume "SleepBegin (waitTime a) \<in> set (trace st)"
    with reachable_inv[OF assms(1)] have r: "2 \<le> rank (pc st)"
      and f: "\<forall>i<nrej (length (servers a)) (pc st). reject (mux (servers (app st) ! i))"
      by (simp_all add: inv_def links_def)
    from nrej_rank[OF r] f show "\<forall>i<length (servers a). reject (mux (servers (app st) ! i))"
      by simp
  qed
  from ok flags show ?thesis
    by (cases e)
       (auto simp: rejected_all_def drained_def stopped_all_def called_back_all_def)
qed

theorem shutdown_stage_order_witness:
  "run (demo_sched (Some ListenerCloseError)) (init demo_app) = Some demo_final
   \<and> trace demo_final = demo_before_close @ CloseBegin # [CloseEnd]
   \<and> called_back_all demo_app demo_before_close
   \<and> StopsJoined \<in> set demo_before_close \<and> SleepEnd \<in> set demo_before_close
   \<and> CbReturned 0 \<in> set demo_before_close
   \<and> StopReturned 0 (Some ListenerCloseError) \<in> set demo_before_close
   \<and> trace demo_final = (demo_before_close @ [CloseBegin]) @ CloseEnd # []
   \<and> CloseBegin \<in> set (demo_before_close @ [CloseBegin])
   \<and> length (cbs demo_app) = 1 \<and> length (servers demo_app) = 1"
proof -
  have split: "trace demo_final = demo_before_close @ CloseBegin # [CloseEnd]"
    using demo_final_fields by simp
  have split2: "trace demo_final = (demo_before_close @ [CloseBegin]) @ CloseEnd # []"
    using demo_final_fields by simp
  have n: "length (cbs demo_app) = 1 \<and> length (servers demo_app) = 1"
    by (simp add: demo_app_def NewApp_def WithShutdownCallbacks_def)
  from shutdown_stage_order[OF demo_run split] n
  have b: "called_back_all demo_app demo_before_close"
    "StopsJoined \<in> set demo_before_close" "SleepEnd \<in> set demo_before_close"
    "CbReturned 0 \<in> set demo_before_close"
    by simp_all
  from shutdown_stage_order[OF demo_run split2]
  have e: "CloseBegin \<in> set (demo_before_close @ [CloseBegin])" by simp
  have "StopReturned 0 (Some ListenerCloseError) \<in> set demo_before_close"
    by (simp add: demo_before_close_def demo_drain_to_close_def)
  with demo_run split split2 n b e show ?thesis by simp
qed

text \<open>
  Claim C2. Once the first signal has been received, a second signal, or the expiry of the
  timer armed with \<open>shutdownTimeout\<close>, ends the process at once with status 1, in whatever
  stage the shutdown is and whatever the barriers are waiting for: the step is always
  possible, it changes nothing but the exit status, and after it no goroutine takes
  another step, so the remaining stages are not run.
\<close>

theorem forced_exit:
  assumes "run acts (init a) = Some st" and "Triggered \<in> set (trace st)"
    and "exited st = None" and "x = Signal \<or> x = TimerFire"
  shows "\<exists>st'. step x st = Some st' \<and> exited st' = Some 1 \<and> pc st' = pc st
           \<and> app st' = app st \<and> wg st' = wg st \<and> stops st' = stops st \<and> cbst st' = cbst st
           \<and> trace st' = trace st @ [Exited 1] \<and> (\<forall>y. step y st' = None)"
proof -
  from reachable_inv[OF assms(1)] assms(2) have armed: "pc st \<noteq> AwaitSignal"
    by (simp add: inv_def links_def)
  from assms(4) obtain l where s: "step x st = Some (os_Exit 1 (logp l st))"
    using step_Signal_armed[OF assms(3) armed] step_TimerFire_armed[OF assms(3) armed]
    by blast
  have "\<forall>y. step y (os_Exit 1 (logp l st)) = None"
    using os_Exit_fields[of 1 l st] by (simp add: exited_stuck)
  with s os_Exit_fields[of 1 l st] show ?thesis by blast
qed

theorem forced_exit_witness:
  "run [Signal, Main, Main] (init demo_app) = Some demo_draining
   \<and> pc demo_draining = Draining
   \<and> Triggered \<in> set (trace demo_draining)
   \<and> exited demo_draining = None
   \<and> map_option exited (step TimerFire demo_draining) = Some (Some 1)
   \<and> map_option pc (step TimerFire demo_draining) = Some Draining
   \<and> map_option exited (step Signal demo_draining) = Some (Some 1)"
proof -
  have e: "map_option (\<lambda>s. (pc s, exited s, trace s)) (run [Signal, Main, Main] (init demo_app))
      = Some (Draining, None, [Triggered, Rejected 0, SleepBegin 10000000000])"
    by (simp add: eval_defs)
  then have r: "run [Signal, Main, Main] (init demo_app) = Some demo_draining"
    by (auto simp: demo_draining_def)
  with e have f: "pc demo_draining = Draining" "exited demo_draining = None"
    "Triggered \<in> set (trace demo_draining)"
    by auto
  from forced_exit[OF r f(3) f(2), of TimerFire] f(1)
  have t: "map_option exited (step TimerFire demo_draining) = Some (Some 1)"
    "map_option pc (step TimerFire demo_draining) = Some Draining"
    by auto
  from forced_exit[OF r f(3) f(2), of Signal]
  have "map_option exited (step Signal demo_draining) = Some (Some 1)"
    by auto
  with r f t show ?thesis by simp
qed

text \<open>
  Claim C3. A request that a server's handler receives after that server's \<open>rejectReq\<close>
  gets status 503 and the fifteen bytes of the literal of line 179 as its body, and the
  response is the same whatever the registered handler is: the handler takes no part in
  it. (No request reaches the handler once \<open>stop\<close> has closed the listener, so these are
  the requests between \<open>rejectReq\<close> and \<open>stop\<close>.)
\<close>

theorem rejected_requests_unavailable:
  assumes "run acts (init a) = Some st" and "trace st = pre @ Served i r w # post"
    and "Rejected i \<in> set pre"
  shows "status w = Some 503 \<and> body w = unavailable_body \<and> length (body w) = 15
       \<and> (\<forall>m h. reject m \<longrightarrow> ServeHTTP (m\<lparr>ServeMux := h\<rparr>) newResponse r = w)"
proof -
  from reachable_hist[OF assms(1,2)] assms(3) have w: "w = unavailable" by simp
  have "\<forall>m h. reject m \<longrightarrow> ServeHTTP (m\<lparr>ServeMux := h\<rparr>) newResponse r = unavailable"
    by (simp add: unavailable_response)
  with w unavailable_fields show ?thesis by blast
qed

theorem rejected_requests_unavailable_witness:
  "run (demo_sched (Some ListenerCloseError)) (init demo_app) = Some demo_final
   \<and> trace demo_final =
       demo_rejected @ Served 0 demo_req \<lparr>status = Some 503, body = unavailable_body\<rparr>
         # (demo_drain_to_close @ [CloseBegin, CloseEnd])
   \<and> Rejected 0 \<in> set demo_rejected
   \<and> ServeHTTP \<lparr>reject = True, ServeMux = demo_mux\<rparr> newResponse demo_req =
       \<lparr>status = Some 503, body = unavailable_body\<rparr>"
proof -
  have split: "trace demo_final =
       demo_rejected @ Served 0 demo_req \<lparr>status = Some 503, body = unavailable_body\<rparr>
         # (demo_drain_to_close @ [CloseBegin, CloseEnd])"
    using demo_final_fields by (simp add: demo_before_close_def demo_before_sleep_def)
  have rej: "Rejected 0 \<in> set demo_rejected" by (simp add: demo_rejected_def)
  from rejected_requests_unavailable[OF demo_run split rej]
  have "\<forall>m h. reject m \<longrightarrow> ServeHTTP (m\<lparr>ServeMux := h\<rparr>) newResponse demo_req =
       \<lparr>status = Some 503, body = unavailable_body\<rparr>"
    by blast
  from this[rule_format, of "\<lparr>reject = True, ServeMux = demo_mux\<rparr>" demo_mux]
  have "ServeHTTP \<lparr>reject = True, ServeMux = demo_mux\<rparr> newResponse demo_req =
       \<lparr>status = Some 503, body = unavailable_body\<rparr>"
    by simp
  with demo_run split rej show ?thesis by simp
qed

text \<open>
  Claim C5, as the code has it. \<open>stop\<close> calls \<open>Shutdown(context.Background())\<close>, a
  graceful shutdown without a deadline: it returns only when no request of its server is
  in flight, never with a deadline error, and a request leaves flight only by finishing.
  \<open>stop\<close> cuts nothing off; it waits for the requests that outlived the drain.
\<close>

theorem stop_waits_for_inflight:
  assumes "step x st = Some st'"
  shows "(\<forall>i res. x = StopReturn i res \<longrightarrow>
            inflight (srv (servers (app st) ! i)) = 0 \<and> res \<noteq> Some DeadlineExceeded)
       \<and> (\<forall>i<length (servers (app st)).
            inflight (srv (servers (app st') ! i)) < inflight (srv (servers (app st) ! i))
            \<longrightarrow> x = ReqDone i)"
  using assms
proof (cases rule: stepE)
  case (stopreturn i res)
  then show ?thesis by simp
next
  case (stoppanic i res)
  then show ?thesis by simp
qed (auto simp: upd_server_def rejectReq_def nth_list_update split: if_splits)

theorem stop_waits_for_inflight_witness:
  "run demo_stop_sched (init demo_app) = Some demo_stopping
   \<and> map_option pc (step (StopReturn 0 None) demo_stopping) = Some WaitStopped
   \<and> map_option stops (step (StopReturn 0 None) demo_stopping) = Some [Finished]
   \<and> inflight (srv (servers (app demo_stopping) ! 0)) = 0"
proof -
  have e: "map_option (\<lambda>s. (pc s, stops s))
      (run (demo_stop_sched @ [StopReturn 0 None]) (init demo_app)) =
      Some (WaitStopped, [Finished])"
    by (simp add: eval_defs)
  then have "run demo_stop_sched (init demo_app) \<noteq> None"
    by (auto simp: run_append split: option.splits)
  then have r: "run demo_stop_sched (init demo_app) = Some demo_stopping"
    by (auto simp: demo_stopping_def)
  with e have s: "map_option (\<lambda>s. (pc s, stops s)) (step (StopReturn 0 None) demo_stopping) =
      Some (WaitStopped, [Finished])"
    by (simp add: run_append split: option.splits)
  then obtain st' where st': "step (StopReturn 0 None) demo_stopping = Some st'"
    by auto
  from stop_waits_for_inflight[OF st']
  have "inflight (srv (servers (app demo_stopping) ! 0)) = 0" by simp
  with r s st' show ?thesis by auto
qed

text \<open>
  The claim as the specification states it (\<open>stop\<close> forcibly cuts off the requests still
  running after the drain) fails: here a request admitted before the signal is still in
  flight after the drain sleep and after \<open>srv.stop()\<close> has been called; \<open>Shutdown\<close> cannot
  return, with any result, and the controlling goroutine cannot pass \<open>wg.Wait()\<close>; once
  the request has finished by itself, \<open>Shutdown\<close> returns.
\<close>

theorem stop_cuts_off_counterexample:
  "map_option trace (run slow_sched (init demo_app)) =
     Some [Served 0 demo_req \<lparr>status = Some 200, body = [0x6F, 0x6B]\<rparr>, Triggered, Rejected 0,
           SleepBegin 10000000000, SleepEnd, GoStop 0, StopCalled 0]
   \<and> run (slow_sched @ [StopReturn 0 None]) (init demo_app) = None
   \<and> run (slow_sched @ [StopReturn 0 (Some ListenerCloseError)]) (init demo_app) = None
   \<and> run (slow_sched @ [StopReturn 0 (Some DeadlineExceeded)]) (init demo_app) = None
   \<and> run (slow_sched @ [Main]) (init demo_app) = None
   \<and> map_option trace (run (slow_sched @ [ReqDone 0, StopReturn 0 None]) (init demo_app)) =
     Some [Served 0 demo_req \<lparr>status = Some 200, body = [0x6F, 0x6B]\<rparr>, Triggered, Rejected 0,
           SleepBegin 10000000000, SleepEnd, GoStop 0, StopCalled 0,
           Completed 0, StopReturned 0 None]"
  by (simp add: eval_defs)

text \<open>
  Claim C6, as the code has it. The result of \<open>srv.stop()\<close> is dropped (line 134): the
  same run with every result replaced by nil is possible too and ends in the same state,
  with the same log, position, exit status, servers and goroutines; only the recorded
  result differs. So a \<open>stop\<close> error is neither logged nor collected, and it neither
  ends the sequence nor skips a stage. Callbacks return no error (line 21). The
  controlling goroutine is held up in \<open>shutdown\<close> only at the two \<open>wg.Wait()\<close>, and
  only while a goroutine of that stage has not finished. And the sequence does run to
  its end: when no request is in flight, whatever result each \<open>stop()\<close> returns, the run
  in which every goroutine gets its turn executes all five stages and \<open>shutdown\<close> returns.
\<close>

theorem stop_errors_discarded:
  assumes "run acts (init a) = Some st"
  shows "(\<exists>st'. run (map nil_result acts) (init a) = Some st' \<and> logs st' = logs st
            \<and> pc st' = pc st \<and> exited st' = exited st \<and> app st' = app st \<and> wg st' = wg st
            \<and> stops st' = stops st \<and> cbst st' = cbst st
            \<and> trace st' = map nil_event (trace st))
       \<and> (exited st = None \<and> step Main st = None \<longrightarrow>
            pc st = AwaitSignal \<or> pc st = Returned
            \<or> (pc st = WaitStopped \<and> (\<exists>i<length (servers a). active (stops st ! i)))
            \<or> (pc st = WaitCallbacks \<and> (\<exists>j<length (cbs a). active (cbst st ! j))))
       \<and> ((\<forall>i<length (servers a). inflight (srv (servers a ! i)) = 0) \<and>
          (\<forall>i<length (servers a). rs i \<noteq> Some DeadlineExceeded) \<longrightarrow>
            (\<exists>fin. run (full_sched (length (servers a)) (length (cbs a)) rs) (init a) = Some fin
               \<and> pc fin = Returned \<and> exited fin = None
               \<and> filter is_Rejected (trace fin) = map Rejected [0..<length (servers a)]
               \<and> SleepBegin (waitTime a) \<in> set (trace fin) \<and> SleepEnd \<in> set (trace fin)
               \<and> (\<forall>i<length (servers a). \<exists>res. StopReturned i res \<in> set (trace fin))
               \<and> (\<forall>j<length (cbs a). CbReturned j \<in> set (trace fin))
               \<and> CloseBegin \<in> set (trace fin) \<and> CloseEnd \<in> set (trace fin)))"
proof -
  from run_nil[OF assms]
  have "run (map nil_result acts) (init a) = Some (forget_results st)"
    by (simp add: forget_results_init)
  with forget_results_fields[of st]
  have first: "\<exists>st'. run (map nil_result acts) (init a) = Some st' \<and> logs st' = logs st
            \<and> pc st' = pc st \<and> exited st' = exited st \<and> app st' = app st \<and> wg st' = wg st
            \<and> stops st' = stops st \<and> cbst st' = cbst st
            \<and> trace st' = map nil_event (trace st)"
    by blast
  have third: "(\<forall>i<length (servers a). inflight (srv (servers a ! i)) = 0) \<and>
          (\<forall>i<length (servers a). rs i \<noteq> Some DeadlineExceeded) \<longrightarrow>
            (\<exists>fin. run (full_sched (length (servers a)) (length (cbs a)) rs) (init a) = Some fin
               \<and> pc fin = Returned \<and> exited fin = None
               \<and> filter is_Rejected (trace fin) = map Rejected [0..<length (servers a)]
               \<and> SleepBegin (waitTime a) \<in> set (trace fin) \<and> SleepEnd \<in> set (trace fin)
               \<and> (\<forall>i<length (servers a). \<exists>res. StopReturned i res \<in> set (trace fin))
               \<and> (\<forall>j<length (cbs a). CbReturned j \<in> set (trace fin))
               \<and> CloseBegin \<in> set (trace fin) \<and> CloseEnd \<in> set (trace fin))"
  proof
    assume h: "(\<forall>i<length (servers a). inflight (srv (servers a ! i)) = 0) \<and>
          (\<forall>i<length (servers a). rs i \<noteq> Some DeadlineExceeded)"
    then obtain fin
      where fin: "run (full_sched (length (servers a)) (length (cbs a)) rs) (init a) = Some fin"
        "pc fin = Returned" "exited fin = None"
      using run_all_stages[of a rs] by blast
    from returned_all_stages[OF reachable_inv[OF fin(1)] fin(2)] fin
    show "\<exists>fin. run (full_sched (length (servers a)) (length (cbs a)) rs) (init a) = Some fin
               \<and> pc fin = Returned \<and> exited fin = None
               \<and> filter is_Rejected (trace fin) = map Rejected [0..<length (servers a)]
               \<and> SleepBegin (waitTime a) \<in> set (trace fin) \<and> SleepEnd \<in> set (trace fin)
               \<and> (\<forall>i<length (servers a). \<exists>res. StopReturned i res \<in> set (trace fin))
               \<and> (\<forall>j<length (cbs a). CbReturned j \<in> set (trace fin))
               \<and> CloseBegin \<in> set (trace fin) \<and> CloseEnd \<in> set (trace fin)"
      by blast
  qed
  from first main_blocked[OF reachable_inv[OF assms]] third show ?thesis by blast
qed

theorem stop_errors_discarded_witness:
  "run (demo_sched (Some ListenerCloseError)) (init demo_app) = Some demo_final
   \<and> map_option logs (run (map nil_result (demo_sched (Some ListenerCloseError)))
        (init demo_app)) = Some demo_log
   \<and> logs demo_final = demo_log
   \<and> exited demo_final = None \<and> step Main demo_final = None \<and> pc demo_final = Returned
   \<and> length (servers demo_app) = 1 \<and> length (cbs demo_app) = 1
   \<and> inflight (srv (servers demo_app ! 0)) = 0
   \<and> demo_results 0 \<noteq> Some DeadlineExceeded
   \<and> map_option pc (run (full_sched 1 1 demo_results) (init demo_app)) = Some Returned
   \<and> map_option exited (run (full_sched 1 1 demo_results) (init demo_app)) = Some None"
proof -
  have "map_option (\<lambda>s. (logs s, exited s, pc s))
      (run (demo_sched (Some ListenerCloseError)) (init demo_app)) =
      Some (demo_log, None, Returned)"
    by (simp add: eval_defs demo_log_def)
  with demo_run have f: "logs demo_final = demo_log" "exited demo_final = None"
    "pc demo_final = Returned"
    by auto
  then have b: "step Main demo_final = None"
    by (simp add: step_def main_step_def)
  have n: "length (servers demo_app) = 1" "length (cbs demo_app) = 1"
    "inflight (srv (servers demo_app ! 0)) = 0"
    by (simp_all add: demo_app_def NewApp_def WithShutdownCallbacks_def NewServer_def demo_server_def)
  have d: "demo_results 0 \<noteq> Some DeadlineExceeded" by (simp add: demo_results_def)
  note inst = stop_errors_discarded[OF demo_run, of demo_results]
  from inst f(1)
  have l: "map_option logs (run (map nil_result (demo_sched (Some ListenerCloseError)))
        (init demo_app)) = Some demo_log"
    by auto
  from inst n d
  have "\<exists>fin. run (full_sched 1 1 demo_results) (init demo_app) = Some fin
      \<and> pc fin = Returned \<and> exited fin = None"
    by auto
  then have c: "map_option pc (run (full_sched 1 1 demo_results) (init demo_app)) = Some Returned"
    "map_option exited (run (full_sched 1 1 demo_results) (init demo_app)) = Some None"
    by auto
  from demo_run f b n d l c show ?thesis by simp
qed

text \<open>
  The claim as the specification states it (each \<open>stop()\<close> error is collected or logged)
  fails: the run in which \<open>Shutdown\<close> returns an error and the run in which it returns
  nil print the same eight log lines, none of them about the error, and end in the same
  state once the recorded result is forgotten.
\<close>

theorem stop_error_logged_counterexample:
  "map_option logs (run (demo_sched (Some ListenerCloseError)) (init demo_app)) =
     Some [LogShutdownBegin, LogServerRejected ''web'', LogWaitRequests, LogStoppingServers,
           LogServerStopping ''web'', LogRunCallbacks, LogRelease, LogAppClosed]
   \<and> map_option logs (run (demo_sched None) (init demo_app)) =
     Some [LogShutdownBegin, LogServerRejected ''web'', LogWaitRequests, LogStoppingServers,
           LogServerStopping ''web'', LogRunCallbacks, LogRelease, LogAppClosed]
   \<and> map_option forget_results (run (demo_sched (Some ListenerCloseError)) (init demo_app)) =
     run (demo_sched None) (init demo_app)
   \<and> map_option pc (run (demo_sched (Some ListenerCloseError)) (init demo_app)) =
     Some Returned"
  by (simp add: eval_defs forget_results_def)

text \<open>
  Claim C7, as the code has it. When the controlling goroutine waits at line 151, every
  callback's goroutine has been started. Each callback can then be called, and can
  return, whatever the others do: one that never returns, or returns late, does not keep
  another from running or from returning. \<open>wg.Wait()\<close> lets the sequence go on exactly
  when all of them have returned. (Nothing is said here about a callback that panics.)
\<close>

theorem callbacks_independent:
  assumes "run acts (init a) = Some st" and "exited st = None" and "pc st = WaitCallbacks"
    and "j < length (cbs a)"
  shows "cbst st ! j \<noteq> Unspawned
       \<and> (cbst st ! j = Spawned \<longrightarrow>
            (\<exists>st'. step (CbBegin j) st = Some st' \<and> exited st' = None
               \<and> cbst st' = (cbst st)[j := Running]))
       \<and> (cbst st ! j = Running \<longrightarrow>
            (\<exists>st'. step (CbReturn j) st = Some st' \<and> exited st' = None
               \<and> cbst st' = (cbst st)[j := Finished]))
       \<and> ((step Main st \<noteq> None) = (\<forall>k<length (cbs a). cbst st ! k = Finished))"
proof -
  have i: "inv a st" using reachable_inv[OF assms(1)] .
  from i assms(3,4) have len: "j < length (cbst st)" and sp: "cbst st ! j \<noteq> Unspawned"
    by (simp_all add: inv_def acct_def shape_def)
  have beg: "cbst st ! j = Spawned \<longrightarrow>
            (\<exists>st'. step (CbBegin j) st = Some st' \<and> exited st' = None
               \<and> cbst st' = (cbst st)[j := Running])"
    using assms(2) len by (simp add: step_def emit_def)
  have ret: "cbst st ! j = Running \<longrightarrow>
            (\<exists>st'. step (CbReturn j) st = Some st' \<and> exited st' = None
               \<and> cbst st' = (cbst st)[j := Finished])"
  proof
    assume r: "cbst st ! j = Running"
    from active_pos[OF len, of active] r have "0 < length (filter active (cbst st))" by simp
    then have "1 \<le> int (length (filter active (stops st))) +
        int (length (filter active (cbst st)))"
      by linarith
    moreover from i have "wg st = int (length (filter active (stops st))) +
        int (length (filter active (cbst st)))"
      by (simp add: inv_def acct_def)
    ultimately have "1 \<le> wg st" by simp
    with assms(2) len r show "\<exists>st'. step (CbReturn j) st = Some st' \<and> exited st' = None
               \<and> cbst st' = (cbst st)[j := Finished]"
      by (simp add: step_def emit_def wg_Done_def)
  qed
  have "(step Main st \<noteq> None) = (wg st = 0)"
    using assms(2,3) by (simp add: step_def main_step_def)
  with barrier_open[OF i assms(3)] sp beg ret show ?thesis by blast
qed

theorem callbacks_independent_witness:
  "run cb_sched (init demo_app2) = Some demo_waiting
   \<and> exited demo_waiting = None \<and> pc demo_waiting = WaitCallbacks
   \<and> length (cbs demo_app2) = 2
   \<and> cbst demo_waiting = [Running, Spawned]
   \<and> map_option cbst (step (CbBegin 1) demo_waiting) = Some [Running, Running]
   \<and> step Main demo_waiting = None"
proof -
  have e: "map_option (\<lambda>s. (pc s, exited s, cbst s)) (run cb_sched (init demo_app2)) =
      Some (WaitCallbacks, None, [Running, Spawned])"
    by (simp add: eval_defs)
  then have r: "run cb_sched (init demo_app2) = Some demo_waiting"
    by (auto simp: demo_waiting_def)
  with e have f: "pc demo_waiting = WaitCallbacks" "exited demo_waiting = None"
    "cbst demo_waiting = [Running, Spawned]"
    by auto
  have n: "length (cbs demo_app2) = 2"
    by (simp add: demo_app2_def NewApp_def WithShutdownCallbacks_def)
  then have one: "1 < length (cbs demo_app2)" by simp
  from callbacks_independent[OF r f(2) f(1) one] f(3)
  have b: "map_option cbst (step (CbBegin 1) demo_waiting) = Some [Running, Running]"
    by auto
  have zero: "0 < length (cbs demo_app2)" using n by simp
  from callbacks_independent[OF r f(2) f(1) zero] f(3) n
  have "step Main demo_waiting = None"
    by (auto simp: less_Suc_eq numeral_2_eq_2)
  with r f n b show ?thesis by simp
qed

text \<open>
  The claim as the specification states it fails for a callback that panics: nothing
  recovers the panic, so the process ends with status 2. Here the first of two callbacks
  panics while the second has not been called yet; the second is never called, and the
  controlling goroutine never gets past \<open>wg.Wait()\<close>.
\<close>

theorem callback_panic_counterexample:
  "map_option exited (run (cb_sched @ [CbPanic 0]) (init demo_app2)) = Some (Some 2)
   \<and> map_option cbst (run (cb_sched @ [CbPanic 0]) (init demo_app2)) = Some [Running, Spawned]
   \<and> map_option pc (run (cb_sched @ [CbPanic 0]) (init demo_app2)) = Some WaitCallbacks
   \<and> run (cb_sched @ [CbPanic 0, CbBegin 1]) (init demo_app2) = None
   \<and> run (cb_sched @ [CbPanic 0, Main]) (init demo_app2) = None"
  by (simp add: eval_defs)

text \<open>
  Claim C8. Calling \<open>rejectReq\<close> twice leaves the server as one call does, so every later
  request is answered the same; and the call never blocks: the controlling goroutine can
  always take the step that calls it.
\<close>

theorem rejectReq_idempotent:
  "rejectReq (rejectReq s) = rejectReq s
   \<and> (\<forall>w r. ServeHTTP (mux (rejectReq (rejectReq s))) w r = ServeHTTP (mux (rejectReq s)) w r)
   \<and> reject (mux (rejectReq s))
   \<and> (exited st = None \<and> pc st = Rejecting i \<longrightarrow> step Main st \<noteq> None)"
  by (simp add: rejectReq_def step_def main_step_def)

theorem rejectReq_idempotent_witness:
  "exited demo_triggered = None \<and> pc demo_triggered = Rejecting 0
   \<and> step Main demo_triggered \<noteq> None
   \<and> rejectReq (rejectReq demo_server) = rejectReq demo_server"
proof -
  have "map_option (\<lambda>s. (pc s, exited s)) (run [Signal] (init demo_app)) =
      Some (Rejecting 0, None)"
    by (simp add: eval_defs)
  then have f: "exited demo_triggered = None" "pc demo_triggered = Rejecting 0"
    by (auto simp: demo_triggered_def)
  from rejectReq_idempotent[of demo_server demo_triggered 0] f
  show ?thesis by simp
qed

text \<open>
  Claim C9. \<open>NewApp\<close> without options gives the defaults of 30, 10 and 3 seconds (in
  nanoseconds) and no callback; every option is applied, in order, to the result of the
  options before it; \<open>WithShutdownCallbacks\<close> sets the callbacks and leaves the servers and
  the three durations at their defaults, however many times it is given.
\<close>

theorem NewApp_defaults_and_options:
  "NewApp svs [] =
     \<lparr>servers = svs, shutdownTimeout = 30000000000, waitTime = 10000000000,
      cbTimeout = 3000000000, cbs = []\<rparr>
   \<and> NewApp svs (opts @ [opt]) = opt (NewApp svs opts)
   \<and> NewApp svs [WithShutdownCallbacks cs] =
     \<lparr>servers = svs, shutdownTimeout = 30000000000, waitTime = 10000000000,
      cbTimeout = 3000000000, cbs = cs\<rparr>
   \<and> servers (NewApp svs (map WithShutdownCallbacks css)) = svs
   \<and> shutdownTimeout (NewApp svs (map WithShutdownCallbacks css)) = 30 * Second
   \<and> waitTime (NewApp svs (map WithShutdownCallbacks css)) = 10 * Second
   \<and> cbTimeout (NewApp svs (map WithShutdownCallbacks css)) = 3 * Second"
  using NewApp_callbacks_fields[of svs css]
  by (simp add: NewApp_def WithShutdownCallbacks_def Second_def)

text \<open>
  Claim C10. \<open>WithShutdownCallbacks(cbs...)\<close> replaces the callback set: after applying it
  the callbacks are exactly \<open>cbs\<close>, an earlier \<open>WithShutdownCallbacks\<close> leaves no trace, and
  of several such options given to \<open>NewApp\<close> only the last one's callbacks remain.
\<close>

theorem WithShutdownCallbacks_replaces:
  "cbs (WithShutdownCallbacks cs a) = cs
   \<and> WithShutdownCallbacks cs (WithShutdownCallbacks cs' a) = WithShutdownCallbacks cs a
   \<and> cbs (NewApp svs (map WithShutdownCallbacks (css @ [cs]))) = cs"
  by (simp add: NewApp_def WithShutdownCallbacks_def)

end
